theory Spec2Isabelle
  imports Complex_Main "HOL-Library.Log_Nat"
begin

section \<open>Early stopping handlers of small-text (training/early_stopping.py)\<close>

subsection \<open>Python floats\<close>

text \<open>
  A Python float is an IEEE 754 binary64 number. Every finite double is an integer multiple
  of \<open>2^(-1074)\<close>, so \<open>Fin k\<close> stands for the double of value \<open>k * 2^(-1074)\<close>; the two zeros
  are one value, which no operation of the module tells apart. \<open>dbl m e\<close> writes the double
  \<open>m * 2^e\<close> (what \<open>math.ldexp(m, e)\<close> gives), for \<open>e \<ge> -1074\<close>.
\<close>

datatype pyfloat = Fin int | PInf | NInf | NaN

definition dbl :: "int \<Rightarrow> int \<Rightarrow> pyfloat" where
  "dbl m e = Fin (m * 2 ^ nat (e + 1074))"

text \<open>
  Rounding of a magnitude to 53 significant bits, to nearest, ties to even. Below \<open>2^53\<close>
  (the subnormal numbers and the first binade of the normal ones) every multiple of
  \<open>2^(-1074)\<close> is a double.
\<close>

definition round53 :: "int \<Rightarrow> int" where
  "round53 n =
     (if n < 2 ^ 53 then n
      else let j = nat (bitlen n - 53); q = n div 2 ^ j; r = n mod 2 ^ j
           in if 2 ^ j < 2 * r \<or> (2 * r = 2 ^ j \<and> odd q) then (q + 1) * 2 ^ j else q * 2 ^ j)"

text \<open>
  The double nearest to the exact value \<open>n * 2^(-1074)\<close>; a result of magnitude \<open>2^1024\<close> or more
  overflows to an infinity.
\<close>

definition fround :: "int \<Rightarrow> pyfloat" where
  "fround n =
     (let r = round53 \<bar>n\<bar>
      in if 2 ^ 2098 \<le> r then (if n < 0 then NInf else PInf)
         else Fin (if n < 0 then - r else r))"

text \<open>\<open>x - y\<close> on floats.\<close>

fun fsub :: "pyfloat \<Rightarrow> pyfloat \<Rightarrow> pyfloat" where
  "fsub NaN y = NaN"
| "fsub x NaN = NaN"
| "fsub PInf PInf = NaN"
| "fsub NInf NInf = NaN"
| "fsub PInf y = PInf"
| "fsub NInf y = NInf"
| "fsub (Fin a) PInf = NInf"
| "fsub (Fin a) NInf = PInf"
| "fsub (Fin a) (Fin b) = fround (a - b)"

text \<open>
  \<open>np.sign(x)\<close>, which is -1, 0, 1 or \<open>nan\<close>; \<open>None\<close> is the \<open>nan\<close>, equal to no monitor sign.
\<close>

fun np_sign :: "pyfloat \<Rightarrow> int option" where
  "np_sign (Fin k) = Some (sgn k)"
| "np_sign PInf = Some 1"
| "np_sign NInf = Some (- 1)"
| "np_sign NaN = None"

text \<open>\<open>np.abs(x) >= y\<close>, for \<open>y\<close> a finite number given by its value.\<close>

fun abs_ge :: "pyfloat \<Rightarrow> real \<Rightarrow> bool" where
  "abs_ge (Fin k) y \<longleftrightarrow> y * 2 ^ 1074 \<le> of_int \<bar>k\<bar>"
| "abs_ge PInf y \<longleftrightarrow> True"
| "abs_ge NInf y \<longleftrightarrow> True"
| "abs_ge NaN y \<longleftrightarrow> False"

text \<open>\<open>np.isnan(x)\<close>.\<close>

definition isnan :: "pyfloat \<Rightarrow> bool" where
  "isnan x \<longleftrightarrow> x = NaN"

text \<open>\<open>x < y\<close> on floats.\<close>

fun fless :: "pyfloat \<Rightarrow> pyfloat \<Rightarrow> bool" where
  "fless (Fin a) (Fin b) \<longleftrightarrow> a < b"
| "fless (Fin a) PInf \<longleftrightarrow> True"
| "fless NInf (Fin b) \<longleftrightarrow> True"
| "fless NInf PInf \<longleftrightarrow> True"
| "fless x y \<longleftrightarrow> False"

text \<open>
  The float of a configuration value. \<open>min_delta\<close> and \<open>threshold\<close> are finite doubles,
  kept by their value, a real number; on such a value the conversion is exact.
\<close>

definition float_of_real :: "real \<Rightarrow> pyfloat" where
  "float_of_real x = Fin \<lfloor>x * 2 ^ 1074\<rfloor>"

text \<open>
  What numpy stores in a float field for a value of \<open>measured_values.get(key, None)\<close>:
  \<open>nan\<close> for \<open>None\<close>.
\<close>

definition stored :: "pyfloat option \<Rightarrow> pyfloat" where
  "stored x = (case x of None \<Rightarrow> NaN | Some v \<Rightarrow> v)"

subsection \<open>Data model\<close>

text \<open>
  Python exceptions are values. The first five constructors are the \<open>ValueError\<close>s
  raised by the module itself (one per message); \<open>NoField\<close> is the \<open>ValueError\<close>
  numpy raises when a structured array is indexed with a name that is no field of it,
  \<open>IndexError\<close> the out-of-range read of an array, \<open>KeyError\<close> the failing
  \<open>measured_values[self.monitor]\<close>.
\<close>

datatype error =
    UnsupportedMetric string
  | InvalidMinDelta
  | InvalidPatience
  | InvalidThreshold
  | InvalidEpoch
  | NoField string
  | IndexError
  | KeyError string

text \<open>
  \<open>measured_values\<close> is a dict of str to float; a key that is missing and a key
  bound to \<open>None\<close> are both read with \<open>.get(key, None)\<close> and are both \<open>None\<close> here.
  A key bound to \<open>nan\<close> is \<open>Some NaN\<close>: it is not \<open>None\<close> for \<open>check_early_stop\<close>,
  and in the history it is the same \<open>nan\<close> as a missing value.
\<close>

type_synonym measured_values = "string \<Rightarrow> pyfloat option"

text \<open>One entry of the structured array \<open>self.history\<close> (fields of \<open>self.dtype\<close>).\<close>

record row =
  epoch :: int
  count :: nat
  train_acc :: pyfloat
  train_loss :: pyfloat
  val_acc :: pyfloat
  val_loss :: pyfloat

text \<open>The attributes of an \<open>EarlyStopping\<close> object.\<close>

record early_stopping =
  monitor :: string
  min_delta :: real
  patience :: int
  threshold :: real
  index_best :: int
  history :: "row list"

subsection \<open>Python and numpy primitives\<close>

text \<open>\<open>sub in s\<close> on strings.\<close>

fun str_contains :: "string \<Rightarrow> string \<Rightarrow> bool" where
  "str_contains sub [] = (sub = [])"
| "str_contains sub (c # cs) = (take (length sub) (c # cs) = sub \<or> str_contains sub cs)"

text \<open>\<open>history[name]\<close>: the column of a field; the two integer fields read as floats.\<close>

definition field :: "string \<Rightarrow> row \<Rightarrow> error + pyfloat" where
  "field name r =
     (if name = ''epoch'' then Inr (fround (epoch r * 2 ^ 1074))
      else if name = ''count'' then Inr (fround (int (count r) * 2 ^ 1074))
      else if name = ''train_acc'' then Inr (train_acc r)
      else if name = ''train_loss'' then Inr (train_loss r)
      else if name = ''val_acc'' then Inr (val_acc r)
      else if name = ''val_loss'' then Inr (val_loss r)
      else Inl (NoField name))"

fun column :: "string \<Rightarrow> row list \<Rightarrow> error + pyfloat list" where
  "column name [] =
     (if name \<in> set [''epoch'', ''count'', ''train_acc'', ''train_loss'', ''val_acc'', ''val_loss'']
      then Inr [] else Inl (NoField name))"
| "column name (r # rs) =
     (case field name r of Inl e \<Rightarrow> Inl e
      | Inr v \<Rightarrow> (case column name rs of Inl e \<Rightarrow> Inl e | Inr vs \<Rightarrow> Inr (v # vs)))"

text \<open>\<open>xs[i]\<close>: a negative index counts from the end, out of range raises.\<close>

definition py_index :: "'a list \<Rightarrow> int \<Rightarrow> error + 'a" where
  "py_index xs i =
     (if 0 \<le> i \<and> i < int (length xs) then Inr (xs ! nat i)
      else if i < 0 \<and> - int (length xs) \<le> i then Inr (xs ! nat (int (length xs) + i))
      else Inl IndexError)"

text \<open>\<open>xs[i:]\<close>: a negative start counts from the end, and is clipped.\<close>

definition py_slice_from :: "'a list \<Rightarrow> int \<Rightarrow> 'a list" where
  "py_slice_from xs i =
     (if 0 \<le> i then drop (nat i) xs else drop (length xs - nat (- i)) xs)"

subsection \<open>EarlyStopping\<close>

definition validate_arguments :: "string \<Rightarrow> real \<Rightarrow> int \<Rightarrow> real \<Rightarrow> error + unit" where
  "validate_arguments mon md pat thr =
     (if mon \<notin> set [''train_acc'', ''train_loss'', ''val_acc'', ''val_loss'']
        then Inl (UnsupportedMetric mon)
      else if md < 0 then Inl InvalidMinDelta
      else if pat \<le> 0 then Inl InvalidPatience
      else if str_contains ''_acc'' mon \<and> (thr < 0 \<or> thr > 1) then Inl InvalidThreshold
      else Inr ())"

text \<open>\<open>EarlyStopping.__init__\<close>.\<close>

definition init :: "string \<Rightarrow> real \<Rightarrow> int \<Rightarrow> real \<Rightarrow> error + early_stopping" where
  "init mon md pat thr =
     (case validate_arguments mon md pat thr of
        Inl e \<Rightarrow> Inl e
      | Inr _ \<Rightarrow> Inr \<lparr>monitor = mon, min_delta = md, patience = pat, threshold = thr,
                      index_best = - 1, history = []\<rparr>)"

text \<open>
  The defaults of the keyword arguments of \<open>__init__\<close>. The literal \<open>1e-14\<close> is the double
  \<open>6338253001141147 * 2^(-99)\<close>.
\<close>

definition default_min_delta :: real where
  "default_min_delta = 6338253001141147 / 2 ^ 99"

definition default_patience :: int where
  "default_patience = 5"

definition default_threshold :: real where
  "default_threshold = 0"

definition add_to_history :: "early_stopping \<Rightarrow> int \<Rightarrow> measured_values \<Rightarrow> row list" where
  "add_to_history s ep m =
     (let cnt = length (filter (\<lambda>r. epoch r = ep) (history s))
      in history s @
         [\<lparr>epoch = ep, count = cnt,
           train_acc = stored (m ''train_acc''), train_loss = stored (m ''train_loss''),
           val_acc = stored (m ''val_acc''), val_loss = stored (m ''val_loss'')\<rparr>])"

text \<open>
  \<open>_check_for_improvement\<close>. The subtraction is the one of doubles; a \<open>nan\<close> in it gives a
  \<open>nan\<close> delta, whose sign equals no monitor sign and whose magnitude is not at least
  \<open>min_delta\<close>.
\<close>

definition check_for_improvement ::
  "early_stopping \<Rightarrow> measured_values \<Rightarrow> int \<Rightarrow> early_stopping \<times> (error + bool)" where
  "check_for_improvement s m monitor_sign =
     (case column (monitor s) (history s) of
        Inl e \<Rightarrow> (s, Inl e)
      | Inr col \<Rightarrow>
     (case py_index col (index_best s) of
        Inl e \<Rightarrow> (s, Inl e)
      | Inr previous_best \<Rightarrow>
     (case m (monitor s) of
        None \<Rightarrow> (s, Inl (KeyError (monitor s)))
      | Some v \<Rightarrow>
        let index_last = int (length (history s)) - 1;
            delta = fsub v previous_best;
            delta_sign = np_sign delta;
            improvement =
              (if min_delta s > 0
               then delta_sign = Some monitor_sign \<and> abs_ge delta (min_delta s)
               else delta_sign = Some monitor_sign)
        in if improvement then (s\<lparr>index_best := index_last\<rparr>, Inr False)
           else
             (case column (monitor s) (py_slice_from (history s) (index_best s + 1)) of
                Inl e \<Rightarrow> (s, Inl e)
              | Inr history_since_previous_best \<Rightarrow>
                  let rows_not_nan = map (\<lambda>x. \<not> isnan x) history_since_previous_best
                  in if int (length (filter id rows_not_nan)) > patience s
                     then (s, Inr True) else (s, Inr False)))))"

text \<open>\<open>EarlyStopping.check_early_stop\<close>.\<close>

definition check_early_stop_es ::
  "early_stopping \<Rightarrow> int \<Rightarrow> measured_values \<Rightarrow> early_stopping \<times> (error + bool)" where
  "check_early_stop_es s0 ep m =
     (if ep \<le> 0 then (s0, Inl InvalidEpoch)
      else
        let s = s0\<lparr>history := add_to_history s0 ep m\<rparr>;
            greater_is_better = str_contains ''_acc'' (monitor s);
            monitor_sign = (if greater_is_better then 1 else - 1);
            measured_value = m (monitor s);
            has_crossed_threshold =
              (case measured_value of None \<Rightarrow> False
               | Some v \<Rightarrow>
                   np_sign (fsub v (float_of_real (threshold s))) = Some monitor_sign)
        in if threshold s > 0 \<and> has_crossed_threshold then (s, Inr True)
           else if measured_value = None then (s, Inr False)
           else if length (history s) = 1 then (s\<lparr>index_best := 0\<rparr>, Inr False)
           else check_for_improvement s m monitor_sign)"

subsection \<open>The handler hierarchy\<close>

datatype handler =
    NoopEarlyStopping
  | EarlyStopping early_stopping
  | SequentialEarlyStopping "handler list"

text \<open>
  \<open>check_early_stop\<close> of the three classes; \<open>check_loop\<close> is the \<open>for\<close> loop of
  \<open>SequentialEarlyStopping\<close>, with the list \<open>results\<close> as accumulator. An exception
  raised by a sub handler leaves the loop: the handlers before it keep their new state,
  the ones after it are not called.
\<close>

fun check_early_stop :: "handler \<Rightarrow> int \<Rightarrow> measured_values \<Rightarrow> handler \<times> (error + bool)"
  and check_loop ::
    "handler list \<Rightarrow> int \<Rightarrow> measured_values \<Rightarrow> bool list \<Rightarrow> handler list \<times> (error + bool list)"
where
  "check_early_stop NoopEarlyStopping ep m = (NoopEarlyStopping, Inr False)"
| "check_early_stop (EarlyStopping s) ep m =
     (case check_early_stop_es s ep m of (s', r) \<Rightarrow> (EarlyStopping s', r))"
| "check_early_stop (SequentialEarlyStopping hs) ep m =
     (case check_loop hs ep m [] of
        (hs', Inl e) \<Rightarrow> (SequentialEarlyStopping hs', Inl e)
      | (hs', Inr results) \<Rightarrow> (SequentialEarlyStopping hs', Inr (list_ex id results)))"
| "check_loop [] ep m results = ([], Inr results)"
| "check_loop (h # hs) ep m results =
     (case check_early_stop h ep m of
        (h', Inl e) \<Rightarrow> (h' # hs, Inl e)
      | (h', Inr b) \<Rightarrow>
          (case check_loop hs ep m (results @ [b]) of (hs', r) \<Rightarrow> (h' # hs', r)))"

subsection \<open>Notions used in the properties\<close>

text \<open>The metric names \<open>_validate_arguments\<close> accepts.\<close>

definition valid_monitors :: "string list" where
  "valid_monitors = [''train_acc'', ''train_loss'', ''val_acc'', ''val_loss'']"

text \<open>The monitored value of a history entry (\<open>NaN\<close> also when there is no such field).\<close>

definition monitored :: "string \<Rightarrow> row \<Rightarrow> pyfloat" where
  "monitored name r = (case field name r of Inl _ \<Rightarrow> NaN | Inr v \<Rightarrow> v)"

text \<open>\<open>monitor_sign\<close> of \<open>check_early_stop\<close>: 1 for an accuracy metric, -1 for a loss.\<close>

definition direction_sign :: "string \<Rightarrow> int" where
  "direction_sign mon = (if str_contains ''_acc'' mon then 1 else - 1)"

text \<open>The condition of the threshold stop in \<open>check_early_stop\<close>, for a present value.\<close>

definition crosses_threshold :: "early_stopping \<Rightarrow> pyfloat \<Rightarrow> bool" where
  "crosses_threshold s v \<longleftrightarrow>
     threshold s > 0 \<and>
     np_sign (fsub v (float_of_real (threshold s))) = Some (direction_sign (monitor s))"

text \<open>
  An improvement in the specification's words, on the delta the code computes: the sign
  of \<open>delta = value - previous_best\<close> is the monitor's direction, and \<open>min_delta\<close> is 0 or
  \<open>abs(delta) >= min_delta\<close>.
\<close>

definition improves_on :: "early_stopping \<Rightarrow> pyfloat \<Rightarrow> pyfloat \<Rightarrow> bool" where
  "improves_on s v b \<longleftrightarrow>
     np_sign (fsub v b) = Some (direction_sign (monitor s)) \<and>
     (min_delta s = 0 \<or> abs_ge (fsub v b) (min_delta s))"

text \<open>
  A caller making check calls in order on one handler, keeping every outcome (a raised
  error included) and going on with the state the call left.
\<close>

fun run_checks ::
  "early_stopping \<Rightarrow> (int \<times> measured_values) list \<Rightarrow> early_stopping \<times> (error + bool) list" where
  "run_checks s [] = (s, [])"
| "run_checks s ((ep, m) # cs) =
     (case check_early_stop_es s ep m of
        (s', r) \<Rightarrow> (case run_checks s' cs of (s'', rs) \<Rightarrow> (s'', r # rs)))"

text \<open>The local \<open>improvement\<close> of \<open>_check_for_improvement\<close>, as the code computes it.\<close>

definition improvement :: "early_stopping \<Rightarrow> pyfloat \<Rightarrow> pyfloat \<Rightarrow> bool" where
  "improvement s v b \<longleftrightarrow>
     (if min_delta s > 0
      then np_sign (fsub v b) = Some (direction_sign (monitor s)) \<and> abs_ge (fsub v b) (min_delta s)
      else np_sign (fsub v b) = Some (direction_sign (monitor s)))"

text \<open>
  \<open>rows_not_nan.sum()\<close>: the entries after the index of the best entry whose monitored
  value is not \<open>nan\<close>.
\<close>

definition present_since :: "early_stopping \<Rightarrow> nat" where
  "present_since s =
     length (filter (\<lambda>r. \<not> isnan (monitored (monitor s) r))
       (drop (nat (index_best s + 1)) (history s)))"

text \<open>Whether a handler is, or holds at any depth, an \<open>EarlyStopping\<close>.\<close>

fun contains_early_stopping :: "handler \<Rightarrow> bool" where
  "contains_early_stopping NoopEarlyStopping = False"
| "contains_early_stopping (EarlyStopping s) = True"
| "contains_early_stopping (SequentialEarlyStopping hs) = (\<exists>h \<in> set hs. contains_early_stopping h)"

text \<open>
  The invariant of the handlers reached from \<open>__init__\<close> by check calls: the index of the
  best entry is \<open>-1\<close> or an index into the history; past the first entry it points to a
  value that is not \<open>nan\<close>; and no value of the history that did not fire the threshold
  rule is an improvement on the value it points to.
\<close>

definition es_inv :: "early_stopping \<Rightarrow> bool" where
  "es_inv s \<longleftrightarrow>
     monitor s \<in> set valid_monitors \<and>
     - 1 \<le> index_best s \<and> index_best s < int (length (history s)) \<and>
     (0 < index_best s \<longrightarrow>
        \<not> isnan (monitored (monitor s) (history s ! nat (index_best s)))) \<and>
     (0 \<le> index_best s \<longrightarrow>
        (\<forall>r \<in> set (history s).
            \<not> crosses_threshold s (monitored (monitor s) r) \<longrightarrow>
            \<not> improvement s (monitored (monitor s) r)
                 (monitored (monitor s) (history s ! nat (index_best s)))))"

section \<open>Arithmetic of doubles\<close>

lemma round53_small: "n < 2 ^ 53 \<Longrightarrow> round53 n = n"
  by (simp add: round53_def)

lemma bitlen_ge_54: "2 ^ 53 \<le> n \<Longrightarrow> 54 \<le> bitlen n"
proof -
  assume a: "2 ^ 53 \<le> n"
  then have pos: "0 < n" by (smt (verit) zero_less_power)
  have "n < 2 ^ nat (bitlen n)" using bitlen_bounds [OF pos] by simp
  then have lt: "(2::int) ^ 53 < 2 ^ nat (bitlen n)" using a by linarith
  have "53 < nat (bitlen n)"
    by (rule power_less_imp_less_exp [of "2::int"]) (simp, rule lt)
  then show ?thesis by linarith
qed

lemma shift_bounds:
  assumes "2 ^ 53 \<le> n"
  defines "j \<equiv> nat (bitlen n - 53)"
  shows "2 ^ (52 + j) \<le> n" and "n < 2 ^ (53 + j)" and "1 \<le> j"
proof -
  have pos: "0 < n" using assms(1) by (smt (verit) zero_less_power)
  have b: "54 \<le> bitlen n" using assms(1) by (rule bitlen_ge_54)
  have e1: "nat (bitlen n - 1) = 52 + j" and e2: "nat (bitlen n) = 53 + j"
    using b unfolding j_def by linarith+
  show "2 ^ (52 + j) \<le> n" "n < 2 ^ (53 + j)"
    using bitlen_bounds [OF pos] unfolding e1 e2 by simp_all
  show "1 \<le> j" using b unfolding j_def by linarith
qed

lemma div_mod_parts:
  fixes n :: int and j :: nat
  shows "(n div 2 ^ j) * 2 ^ j \<le> n" and "n < (n div 2 ^ j + 1) * 2 ^ j"
proof -
  have c: "(0::int) < 2 ^ j" by simp
  have eq: "n = (n div 2 ^ j) * 2 ^ j + n mod 2 ^ j"
    using div_mult_mod_eq [of n "2 ^ j"] by simp
  have m: "0 \<le> n mod 2 ^ j" "n mod 2 ^ j < 2 ^ j" using c by simp_all
  show "(n div 2 ^ j) * 2 ^ j \<le> n" using eq m(1) by linarith
  have "(n div 2 ^ j + 1) * 2 ^ j = (n div 2 ^ j) * 2 ^ j + 2 ^ j" by (simp add: algebra_simps)
  then show "n < (n div 2 ^ j + 1) * 2 ^ j" using eq m(2) by linarith
qed

lemma div_bounds:
  fixes n :: int and j :: nat
  assumes "a * 2 ^ j \<le> n" and "n < b * 2 ^ j"
  shows "a \<le> n div 2 ^ j" and "n div 2 ^ j < b"
proof -
  have c: "(0::int) < 2 ^ j" by simp
  show "a \<le> n div 2 ^ j"
  proof (rule ccontr)
    assume "\<not> a \<le> n div 2 ^ j"
    then have "n div 2 ^ j + 1 \<le> a" by simp
    then have "(n div 2 ^ j + 1) * 2 ^ j \<le> a * 2 ^ j" using c by (simp add: mult_right_mono)
    then show False using div_mod_parts(2) [of n j] assms(1) by linarith
  qed
  show "n div 2 ^ j < b"
  proof (rule ccontr)
    assume "\<not> n div 2 ^ j < b"
    then have "b \<le> n div 2 ^ j" by simp
    then have "b * 2 ^ j \<le> (n div 2 ^ j) * 2 ^ j" using c by (simp add: mult_right_mono)
    then show False using div_mod_parts(1) [of n j] assms(2) by linarith
  qed
qed

lemma round53_large:
  assumes "2 ^ 53 \<le> n"
  defines "j \<equiv> nat (bitlen n - 53)"
  defines "q \<equiv> n div 2 ^ j"
  shows "round53 n = q * 2 ^ j \<or> round53 n = (q + 1) * 2 ^ j"
    and "2 ^ 52 \<le> q" and "q < 2 ^ 53"
    and "2 ^ 52 * 2 ^ j \<le> round53 n" and "round53 n \<le> 2 ^ 53 * 2 ^ j"
proof -
  have nl: "\<not> n < 2 ^ 53" using assms(1) by simp
  show r: "round53 n = q * 2 ^ j \<or> round53 n = (q + 1) * 2 ^ j"
    unfolding round53_def q_def j_def using nl by (simp add: Let_def)
  have lo: "2 ^ 52 * 2 ^ j \<le> n" and hi: "n < 2 ^ 53 * 2 ^ j"
    using shift_bounds(1,2) [OF assms(1)] unfolding j_def by (simp_all add: power_add)
  show q: "2 ^ 52 \<le> q" "q < 2 ^ 53"
    unfolding q_def using div_bounds [OF lo hi] by simp_all
  have c: "(0::int) < 2 ^ j" by simp
  have "2 ^ 52 * 2 ^ j \<le> q * 2 ^ j" using q(1) c by (simp add: mult_right_mono)
  moreover have "q * 2 ^ j \<le> (q + 1) * 2 ^ j" using c by (simp add: mult_right_mono)
  moreover have "(q + 1) * 2 ^ j \<le> 2 ^ 53 * 2 ^ j" using q(2) c by (simp add: mult_right_mono)
  ultimately show "2 ^ 52 * 2 ^ j \<le> round53 n" "round53 n \<le> 2 ^ 53 * 2 ^ j"
    using r by auto
qed

lemma round53_mono:
  assumes "a \<le> b"
  shows "round53 a \<le> round53 b"
proof (cases "b < 2 ^ 53")
  case True
  then show ?thesis using assms by (simp add: round53_small)
next
  case bl: False
  define jb where "jb = nat (bitlen b - 53)"
  have b53: "2 ^ 53 \<le> b" using bl by simp
  note B = round53_large [OF b53, folded jb_def]
  note sb = shift_bounds [OF b53, folded jb_def]
  show ?thesis
  proof (cases "a < 2 ^ 53")
    case True
    have "(2::int) ^ 53 = 2 ^ 52 * 2 ^ 1" by simp
    also have "\<dots> \<le> 2 ^ 52 * 2 ^ jb"
      using sb(3) by (intro mult_left_mono power_increasing) simp_all
    finally have "2 ^ 53 \<le> round53 b" using B(4) by linarith
    then show ?thesis using True by (simp add: round53_small)
  next
    case al: False
    define ja where "ja = nat (bitlen a - 53)"
    have a53: "2 ^ 53 \<le> a" using al by simp
    note A = round53_large [OF a53, folded ja_def]
    note sa = shift_bounds [OF a53, folded ja_def]
    have "(2::int) ^ (52 + ja) < 2 ^ (53 + jb)" using sa(1) sb(2) assms by linarith
    then have "52 + ja < 53 + jb"
      by (intro power_less_imp_less_exp [of "2::int"]) simp_all
    then have jle: "ja \<le> jb" by simp
    show ?thesis
    proof (cases "ja < jb")
      case True
      then have "53 + ja \<le> 52 + jb" by simp
      then have "(2::int) ^ (53 + ja) \<le> 2 ^ (52 + jb)" by (intro power_increasing) simp_all
      then have "(2::int) ^ 53 * 2 ^ ja \<le> 2 ^ 52 * 2 ^ jb" by (simp add: power_add)
      then show ?thesis using A(5) B(4) by linarith
    next
      case False
      then have jeq: "jb = ja" using jle by simp
      define qa where "qa = a div 2 ^ ja"
      define qb where "qb = b div 2 ^ ja"
      have c: "(0::int) < 2 ^ ja" by simp
      have qle: "qa \<le> qb" unfolding qa_def qb_def using assms c by (simp add: zdiv_mono1)
      have ra: "round53 a = qa * 2 ^ ja \<or> round53 a = (qa + 1) * 2 ^ ja"
        using A(1) unfolding qa_def .
      have rb: "round53 b = qb * 2 ^ ja \<or> round53 b = (qb + 1) * 2 ^ ja"
        using B(1) unfolding qb_def jeq .
      show ?thesis
      proof (cases "qa < qb")
        case True
        then have "qa + 1 \<le> qb" by simp
        then have "(qa + 1) * 2 ^ ja \<le> qb * 2 ^ ja" using c by (simp add: mult_right_mono)
        moreover have "qa * 2 ^ ja \<le> (qa + 1) * 2 ^ ja" using c by (simp add: mult_right_mono)
        moreover have "qb * 2 ^ ja \<le> (qb + 1) * 2 ^ ja" using c by (simp add: mult_right_mono)
        ultimately show ?thesis using ra rb by linarith
      next
        case False
        then have qeq: "qb = qa" using qle by simp
        have ea: "a = qa * 2 ^ ja + a mod 2 ^ ja"
          unfolding qa_def using div_mult_mod_eq [of a "2 ^ ja"] by simp
        have eb: "b = qa * 2 ^ ja + b mod 2 ^ ja"
          unfolding qeq [symmetric] qb_def using div_mult_mod_eq [of b "2 ^ ja"] by simp
        have rle: "a mod 2 ^ ja \<le> b mod 2 ^ ja" using ea eb assms by linarith
        have fa: "round53 a =
            (if 2 ^ ja < 2 * (a mod 2 ^ ja) \<or> (2 * (a mod 2 ^ ja) = 2 ^ ja \<and> odd qa)
             then (qa + 1) * 2 ^ ja else qa * 2 ^ ja)"
          unfolding round53_def using al by (simp add: Let_def ja_def qa_def)
        have fb: "round53 b =
            (if 2 ^ ja < 2 * (b mod 2 ^ ja) \<or> (2 * (b mod 2 ^ ja) = 2 ^ ja \<and> odd qa)
             then (qa + 1) * 2 ^ ja else qa * 2 ^ ja)"
          unfolding round53_def using bl
          by (simp add: Let_def jb_def [symmetric] jeq qb_def [symmetric] qeq)
        have "qa * 2 ^ ja \<le> (qa + 1) * 2 ^ ja" using c by (simp add: mult_right_mono)
        then show ?thesis unfolding fa fb using rle by auto
      qed
    qed
  qed
qed

lemma round53_pos: "0 < n \<Longrightarrow> 0 < round53 n"
proof (cases "n < 2 ^ 53")
  case True
  assume "0 < n"
  then show ?thesis using True by (simp add: round53_small)
next
  case False
  then have "2 ^ 53 \<le> n" by simp
  from round53_large(4) [OF this] show ?thesis
    by (smt (verit) mult_pos_pos zero_less_power)
qed

lemma round53_zero [simp]: "round53 0 = 0"
  by (simp add: round53_small)

lemma round53_exact:
  assumes "0 \<le> m" and "m < 2 ^ 53"
  shows "round53 (m * 2 ^ k) = m * 2 ^ k"
proof (cases "m * 2 ^ k < 2 ^ 53")
  case True
  then show ?thesis by (rule round53_small)
next
  case False
  then have mpos: "0 < m" using assms(1) by (cases "m = 0") auto
  define j where "j = nat (bitlen (m * 2 ^ k) - 53)"
  have "bitlen m \<le> 53" using assms(2) by (simp add: bitlen_le_iff_power)
  moreover have "bitlen (m * 2 ^ k) = bitlen m + int k" using mpos by simp
  ultimately have jk: "j \<le> k" unfolding j_def by linarith
  then obtain d where d: "k = j + d" using le_Suc_ex by blast
  have eq: "m * 2 ^ k = (m * 2 ^ d) * 2 ^ j" unfolding d by (simp add: power_add)
  have md: "(m * 2 ^ k) mod 2 ^ j = 0" unfolding eq by simp
  have dv: "(m * 2 ^ k) div 2 ^ j = m * 2 ^ d" unfolding eq by simp
  show ?thesis
    unfolding round53_def using False
    by (simp add: Let_def j_def [symmetric] md dv) (simp add: d power_add)
qed

lemma fround_zero [simp]: "fround 0 = Fin 0"
  by (simp add: fround_def)

lemma np_sign_fround: "np_sign (fround n) = Some (sgn n)"
proof -
  consider "n < 0" | "n = 0" | "0 < n" by linarith
  then show ?thesis
  proof cases
    case 1
    then have "0 < round53 \<bar>n\<bar>" by (intro round53_pos) simp
    then show ?thesis using 1 by (simp add: fround_def Let_def)
  next
    case 2
    then show ?thesis by simp
  next
    case 3
    then have "0 < round53 \<bar>n\<bar>" by (intro round53_pos) simp
    then show ?thesis using 3 by (simp add: fround_def Let_def)
  qed
qed

lemma abs_ge_fround:
  "abs_ge (fround n) y \<longleftrightarrow> 2 ^ 2098 \<le> round53 \<bar>n\<bar> \<or> y * 2 ^ 1074 \<le> of_int (round53 \<bar>n\<bar>)"
proof -
  have "0 \<le> round53 \<bar>n\<bar>" using round53_mono [of 0 "\<bar>n\<bar>"] by simp
  then show ?thesis by (auto simp: fround_def Let_def)
qed

lemma abs_ge_fround_mono:
  assumes "\<bar>x\<bar> \<le> \<bar>y\<bar>" and "abs_ge (fround x) d"
  shows "abs_ge (fround y) d"
proof -
  have "round53 \<bar>x\<bar> \<le> round53 \<bar>y\<bar>" using assms(1) by (rule round53_mono)
  then have "(of_int (round53 \<bar>x\<bar>) :: real) \<le> of_int (round53 \<bar>y\<bar>)" by simp
  then show ?thesis using assms(2) \<open>round53 \<bar>x\<bar> \<le> round53 \<bar>y\<bar>\<close>
    unfolding abs_ge_fround by linarith
qed

lemma fround_exact:
  assumes "\<bar>m\<bar> < 2 ^ 53" and "\<bar>m\<bar> * 2 ^ k < 2 ^ 2098"
  shows "fround (m * 2 ^ k) = Fin (m * 2 ^ k)"
proof -
  have a: "\<bar>m * 2 ^ k\<bar> = \<bar>m\<bar> * 2 ^ k" by (simp add: abs_mult)
  have r: "round53 (\<bar>m\<bar> * 2 ^ k) = \<bar>m\<bar> * 2 ^ k"
    using assms(1) by (intro round53_exact) simp_all
  have neg: "m * 2 ^ k < 0 \<longleftrightarrow> m < 0" by (simp add: mult_less_0_iff)
  show ?thesis
    unfolding fround_def a r using assms(2) by (auto simp: Let_def neg)
qed

lemma fsub_dbl:
  assumes "\<bar>m - n\<bar> < 2 ^ 53" and "- 1074 \<le> e" and "e \<le> 971"
  shows "fsub (dbl m e) (dbl n e) = dbl (m - n) e"
proof -
  let ?k = "nat (e + 1074)"
  have k: "?k \<le> 2045" using assms(2,3) by simp
  have "\<bar>m - n\<bar> * 2 ^ ?k < 2 ^ 53 * 2 ^ ?k" using assms(1) by simp
  also have "\<dots> = (2::int) ^ (53 + ?k)" by (simp add: power_add)
  also have "\<dots> \<le> 2 ^ 2098" using k by (intro power_increasing) simp_all
  finally have b: "\<bar>m - n\<bar> * 2 ^ ?k < 2 ^ 2098" .
  have "fsub (dbl m e) (dbl n e) = fround ((m - n) * 2 ^ ?k)"
    by (simp add: dbl_def algebra_simps)
  then show ?thesis using fround_exact [OF assms(1) b] by (simp add: dbl_def)
qed

lemma np_sign_fsub_fless:
  "np_sign (fsub v b) = Some 1 \<longleftrightarrow> fless b v"
  "np_sign (fsub v b) = Some (- 1) \<longleftrightarrow> fless v b"
  by (cases v; cases b; simp add: np_sign_fround sgn_if)+

lemma np_sign_fsub_self: "np_sign (fsub v v) \<noteq> Some 1" "np_sign (fsub v v) \<noteq> Some (- 1)"
  by (cases v; simp)+

lemma np_sign_dbl [simp]: "np_sign (dbl m e) = Some (sgn m)"
  by (simp add: dbl_def sgn_if mult_less_0_iff zero_less_mult_iff)

lemma isnan_dbl [simp]: "\<not> isnan (dbl m e)" "isnan NaN"
  by (simp_all add: dbl_def isnan_def)

lemma abs_ge_dbl:
  assumes "- 1074 \<le> e" and "e \<le> 0"
  shows "abs_ge (dbl m e) y \<longleftrightarrow> y * 2 ^ nat (- e) \<le> of_int \<bar>m\<bar>"
proof -
  let ?N = "nat (- e)" and ?K = "nat (e + 1074)"
  have k: "1074 = ?N + ?K" using assms by linarith
  have p: "(2::real) ^ 1074 = 2 ^ ?N * 2 ^ ?K"
    by (subst k) (rule power_add)
  have pos: "(0::real) < 2 ^ ?K" by (rule zero_less_power) simp
  have a: "(of_int \<bar>m * 2 ^ ?K\<bar> :: real) = of_int \<bar>m\<bar> * 2 ^ ?K"
    by (simp add: abs_mult)
  have "abs_ge (dbl m e) y \<longleftrightarrow> (y * 2 ^ ?N) * 2 ^ ?K \<le> of_int \<bar>m\<bar> * 2 ^ ?K"
    unfolding dbl_def abs_ge.simps a p by (simp only: mult.assoc)
  also have "\<dots> \<longleftrightarrow> y * 2 ^ ?N \<le> of_int \<bar>m\<bar>"
    using pos by (rule mult_le_cancel_right_pos)
  finally show ?thesis .
qed

lemma float_of_real_dbl:
  assumes "k \<le> 1074"
  shows "float_of_real (of_int m / 2 ^ k) = dbl m (- int k)"
proof -
  let ?D = "nat (- int k + 1074)"
  have e: "1074 = k + ?D" using assms by linarith
  have p: "(2::real) ^ 1074 = 2 ^ k * 2 ^ ?D"
    by (subst e) (rule power_add)
  have nz: "(2::real) ^ k \<noteq> 0" by simp
  have "(of_int m / 2 ^ k) * ((2::real) ^ k * 2 ^ ?D) = of_int m * 2 ^ ?D"
    using nz by simp
  also have "\<dots> = of_int (m * 2 ^ ?D)"
    by simp
  finally have "\<lfloor>(of_int m / 2 ^ k) * (2::real) ^ 1074\<rfloor> = m * 2 ^ ?D"
    unfolding p by (simp only: floor_of_int)
  then show ?thesis unfolding float_of_real_def dbl_def by (simp only:)
qed

lemma float_of_real_zero [simp]: "float_of_real 0 = Fin 0"
  by (simp add: float_of_real_def)

lemma stored_simps [simp]: "stored None = NaN" "stored (Some v) = v"
  by (simp_all add: stored_def)

section \<open>Basic facts\<close>

lemma direction_sign_cases: "direction_sign mon = 1 \<or> direction_sign mon = - 1"
  by (simp add: direction_sign_def)

lemma improvement_irrefl: "\<not> improvement s v v"
  using direction_sign_cases [of "monitor s"] np_sign_fsub_self [of v]
  by (auto simp: improvement_def)

lemma improvement_nan [simp]: "\<not> improvement s NaN b" "\<not> improvement s v NaN"
  by (cases v; simp add: improvement_def)+

lemma crosses_threshold_nan [simp]: "\<not> crosses_threshold s NaN"
  by (simp add: crosses_threshold_def)

lemma improvement_improves_on:
  "0 \<le> min_delta s \<Longrightarrow> improvement s v b = improves_on s v b"
  by (auto simp: improvement_def improves_on_def)

lemma improvement_fin:
  "improvement s (Fin x) (Fin y) \<longleftrightarrow>
     sgn (x - y) = direction_sign (monitor s) \<and>
     (0 < min_delta s \<longrightarrow> abs_ge (fround (x - y)) (min_delta s))"
  by (auto simp: improvement_def np_sign_fround)

lemma improvement_fless:
  assumes "improvement s v b"
  shows "direction_sign (monitor s) = 1 \<Longrightarrow> fless b v"
    and "direction_sign (monitor s) = - 1 \<Longrightarrow> fless v b"
  using assms by (auto simp: improvement_def np_sign_fsub_fless split: if_splits)

lemma improvement_infinite:
  "fsub w b = PInf \<Longrightarrow> direction_sign (monitor s) = 1 \<Longrightarrow> improvement s w b"
  "fsub w b = NInf \<Longrightarrow> direction_sign (monitor s) = - 1 \<Longrightarrow> improvement s w b"
  by (simp_all add: improvement_def)

lemma improvement_chain_fin:
  assumes "improvement s (Fin z) (Fin x)" and "\<bar>z - x\<bar> \<le> \<bar>z - y\<bar>" and "sgn (z - y) = sgn (z - x)"
  shows "improvement s (Fin z) (Fin y)"
proof -
  have "abs_ge (fround (z - y)) (min_delta s)" if "0 < min_delta s"
  proof -
    have "abs_ge (fround (z - x)) (min_delta s)"
      using assms(1) that unfolding improvement_fin by simp
    then show ?thesis using assms(2) by (rule abs_ge_fround_mono [rotated])
  qed
  then show ?thesis using assms(1,3) unfolding improvement_fin by simp
qed

lemma improvement_chain:
  assumes "improvement s v b" and "\<not> improvement s w b"
  shows "\<not> improvement s w v"
proof
  assume wv: "improvement s w v"
  consider "direction_sign (monitor s) = 1" | "direction_sign (monitor s) = - 1"
    using direction_sign_cases by blast
  then show False
  proof cases
    case 1
    have bv: "fless b v" using assms(1) 1 by (rule improvement_fless)
    have vw: "fless v w" using wv 1 by (rule improvement_fless)
    from bv vw obtain x where x: "v = Fin x" by (cases v; cases b; cases w; simp)
    from bv x consider y where "b = Fin y" "y < x" | "b = NInf" by (cases b) simp_all
    then show False
    proof cases
      case 1
      from vw x consider z where "w = Fin z" "x < z" | "w = PInf" by (cases w) simp_all
      then show False
      proof cases
        case z: 1
        have "improvement s (Fin z) (Fin y)"
          by (rule improvement_chain_fin [of s z x y])
            (use wv x z 1 in \<open>simp_all add: sgn_if\<close>)
        then show False using assms(2) z(1) 1(1) by simp
      next
        case 2
        have "improvement s w b"
          by (rule improvement_infinite(1)) (use 2 1 \<open>direction_sign (monitor s) = 1\<close> in simp_all)
        then show False using assms(2) by simp
      qed
    next
      case 2
      from vw x have "w = PInf \<or> (\<exists>z. w = Fin z)" by (cases w) simp_all
      then have "fsub w b = PInf" using 2 by auto
      then have "improvement s w b"
        using \<open>direction_sign (monitor s) = 1\<close> by (rule improvement_infinite(1))
      then show False using assms(2) by simp
    qed
  next
    case 2
    have bv: "fless v b" using assms(1) 2 by (rule improvement_fless)
    have vw: "fless w v" using wv 2 by (rule improvement_fless)
    from bv vw obtain x where x: "v = Fin x" by (cases v; cases b; cases w; simp)
    from bv x consider y where "b = Fin y" "x < y" | "b = PInf" by (cases b) simp_all
    then show False
    proof cases
      case 1
      from vw x consider z where "w = Fin z" "z < x" | "w = NInf" by (cases w) simp_all
      then show False
      proof cases
        case z: 1
        have "improvement s (Fin z) (Fin y)"
          by (rule improvement_chain_fin [of s z x y])
            (use wv x z 1 in \<open>simp_all add: sgn_if\<close>)
        then show False using assms(2) z(1) 1(1) by simp
      next
        case 2
        have "improvement s w b"
          by (rule improvement_infinite(2)) (use 2 1 \<open>direction_sign (monitor s) = - 1\<close> in simp_all)
        then show False using assms(2) by simp
      qed
    next
      case 2
      from vw x have "w = NInf \<or> (\<exists>z. w = Fin z)" by (cases w) simp_all
      then have "fsub w b = NInf" using 2 by auto
      then have "improvement s w b"
        using \<open>direction_sign (monitor s) = - 1\<close> by (rule improvement_infinite(2))
      then show False using assms(2) by simp
    qed
  qed
qed

lemma str_contains_acc:
  "str_contains ''_acc'' ''train_acc''" "\<not> str_contains ''_acc'' ''train_loss''"
  "str_contains ''_acc'' ''val_acc''" "\<not> str_contains ''_acc'' ''val_loss''"
  by simp_all

lemma field_valid:
  "mon \<in> set valid_monitors \<Longrightarrow> field mon r = Inr (monitored mon r)"
  unfolding valid_monitors_def monitored_def field_def by auto

lemma column_valid:
  "mon \<in> set valid_monitors \<Longrightarrow> column mon rs = Inr (map (monitored mon) rs)"
proof (induction rs)
  case Nil
  then show ?case by (simp add: valid_monitors_def)
next
  case (Cons r rs)
  then show ?case by (simp add: field_valid)
qed

lemma validate_iff:
  "validate_arguments mon md pat thr = Inr () \<longleftrightarrow>
     mon \<in> set valid_monitors \<and> 0 \<le> md \<and> 1 \<le> pat \<and>
     (mon \<in> {''train_acc'', ''val_acc''} \<longrightarrow> 0 \<le> thr \<and> thr \<le> 1)"
proof (cases "mon \<in> set valid_monitors")
  case False
  then show ?thesis by (simp add: validate_arguments_def valid_monitors_def)
next
  case True
  then consider "mon = ''train_acc''" | "mon = ''train_loss''" | "mon = ''val_acc''" | "mon = ''val_loss''"
    by (auto simp: valid_monitors_def)
  then show ?thesis
    by cases (auto simp: validate_arguments_def valid_monitors_def)
qed

lemma monitored_new_row:
  "mon \<in> set valid_monitors \<Longrightarrow>
   monitored mon \<lparr>epoch = ep, count = c,
           train_acc = stored (m ''train_acc''), train_loss = stored (m ''train_loss''),
           val_acc = stored (m ''val_acc''), val_loss = stored (m ''val_loss'')\<rparr> = stored (m mon)"
  unfolding valid_monitors_def monitored_def field_def by auto

lemma add_to_history_length [simp]: "length (add_to_history s ep m) = Suc (length (history s))"
  by (simp add: add_to_history_def)

lemma add_to_history_nonempty [simp]: "add_to_history s ep m \<noteq> []"
  by (simp add: add_to_history_def)

lemma add_to_history_nth_old:
  "i < length (history s) \<Longrightarrow> add_to_history s ep m ! i = history s ! i"
  by (simp add: add_to_history_def nth_append)

lemma nth_add_to_history_last:
  "add_to_history s ep m ! length (history s) = last (add_to_history s ep m)"
  by (simp add: add_to_history_def)

lemma monitored_last_add:
  "mon \<in> set valid_monitors \<Longrightarrow>
   monitored mon (last (add_to_history s ep m)) = stored (m mon)"
  by (simp add: add_to_history_def monitored_new_row)

lemma monitored_in_add_to_history:
  assumes "mon \<in> set valid_monitors" and "r \<in> set (add_to_history s ep m)"
  shows "r \<in> set (history s) \<or> monitored mon r = stored (m mon)"
  using assms by (auto simp: add_to_history_def monitored_new_row)

lemma check_es_bad_epoch: "ep \<le> 0 \<Longrightarrow> check_early_stop_es s ep m = (s, Inl InvalidEpoch)"
  by (simp add: check_early_stop_es_def)

lemma check_es_absent:
  "0 < ep \<Longrightarrow> m (monitor s) = None \<Longrightarrow>
   check_early_stop_es s ep m = (s\<lparr>history := add_to_history s ep m\<rparr>, Inr False)"
  by (simp add: check_early_stop_es_def Let_def)

lemma check_es_threshold:
  "0 < ep \<Longrightarrow> m (monitor s) = Some v \<Longrightarrow> crosses_threshold s v \<Longrightarrow>
   check_early_stop_es s ep m = (s\<lparr>history := add_to_history s ep m\<rparr>, Inr True)"
  by (simp add: check_early_stop_es_def Let_def crosses_threshold_def direction_sign_def)

lemma check_es_first:
  "0 < ep \<Longrightarrow> m (monitor s) = Some v \<Longrightarrow> \<not> crosses_threshold s v \<Longrightarrow> history s = [] \<Longrightarrow>
   check_early_stop_es s ep m = (s\<lparr>history := add_to_history s ep m, index_best := 0\<rparr>, Inr False)"
  by (auto simp add: check_early_stop_es_def Let_def crosses_threshold_def direction_sign_def)

lemma check_es_later:
  "0 < ep \<Longrightarrow> m (monitor s) = Some v \<Longrightarrow> \<not> crosses_threshold s v \<Longrightarrow> history s \<noteq> [] \<Longrightarrow>
   check_early_stop_es s ep m =
     check_for_improvement (s\<lparr>history := add_to_history s ep m\<rparr>) m (direction_sign (monitor s))"
  by (auto simp add: check_early_stop_es_def Let_def crosses_threshold_def direction_sign_def)

lemma filter_id_map: "length (filter id (map P xs)) = length (filter P xs)"
  by (induction xs) auto

lemma cfi_general:
  assumes "monitor s \<in> set valid_monitors" "m (monitor s) = Some v"
    and "- 1 \<le> index_best s" "index_best s < int (length (history s))" "history s \<noteq> []"
  shows "check_for_improvement s m (direction_sign (monitor s)) =
    (if improvement s v (monitored (monitor s)
            (history s ! nat (if index_best s < 0 then int (length (history s)) + index_best s
                              else index_best s)))
     then (s\<lparr>index_best := int (length (history s)) - 1\<rparr>, Inr False)
     else (s, Inr (int (present_since s) > patience s)))"
proof -
  let ?n = "int (length (history s))"
  let ?j = "if index_best s < 0 then ?n + index_best s else index_best s"
  define pb where "pb = monitored (monitor s) (history s ! nat ?j)"
  define since where "since = map (monitored (monitor s)) (drop (nat (index_best s + 1)) (history s))"
  have j: "0 \<le> ?j \<and> ?j < ?n" using assms(3,4,5) by (cases "history s") auto
  have col: "column (monitor s) (history s) = Inr (map (monitored (monitor s)) (history s))"
    using assms(1) by (rule column_valid)
  have idx: "py_index (map (monitored (monitor s)) (history s)) (index_best s) = Inr pb"
    unfolding pb_def using j by (auto simp: py_index_def)
  have sl: "py_slice_from (history s) (index_best s + 1) = drop (nat (index_best s + 1)) (history s)"
    using assms(3) by (auto simp: py_slice_from_def)
  have col2: "column (monitor s) (drop (nat (index_best s + 1)) (history s)) = Inr since"
    unfolding since_def using assms(1) by (rule column_valid)
  have cnt: "length (filter (\<lambda>x. \<not> isnan x) since) = present_since s"
    unfolding since_def present_since_def by (simp add: comp_def)
  have "check_for_improvement s m (direction_sign (monitor s)) =
    (if improvement s v pb
     then (s\<lparr>index_best := int (length (history s)) - 1\<rparr>, Inr False)
     else (s, Inr (int (present_since s) > patience s)))"
  proof (cases "improvement s v pb")
    case True
    then show ?thesis
      by (simp add: check_for_improvement_def col idx assms(2) Let_def improvement_def
          split: if_splits)
  next
    case False
    then show ?thesis
      by (simp add: check_for_improvement_def col idx sl col2 assms(2) Let_def cnt
          improvement_def split: if_splits)
  qed
  then show ?thesis unfolding pb_def .
qed

section \<open>Construction\<close>

lemma init_isl: "isl (init mon md pat thr) \<longleftrightarrow> validate_arguments mon md pat thr \<noteq> Inr ()"
  by (cases "validate_arguments mon md pat thr") (simp_all add: init_def)

lemma init_ok:
  "\<not> isl (init mon md pat thr) \<Longrightarrow>
      init mon md pat thr =
        Inr \<lparr>monitor = mon, min_delta = md, patience = pat, threshold = thr,
             index_best = - 1, history = []\<rparr>"
  by (cases "validate_arguments mon md pat thr") (simp_all add: init_def)

text \<open>
  C7: constructing an \<open>EarlyStopping\<close> raises (a \<open>ValueError\<close>, from \<open>__init__\<close>,
  before any check) exactly when the monitor is none of the four metric names, or
  \<open>min_delta < 0\<close>, or \<open>patience < 1\<close>, or the monitor is an accuracy metric and the
  threshold lies outside \<open>[0, 1]\<close>. A loss monitor is accepted with any threshold, and
  the object built holds the arguments as they were given.
\<close>

theorem init_validation:
  "(isl (init mon md pat thr) \<longleftrightarrow>
      (mon \<notin> set valid_monitors \<or> md < 0 \<or> pat < 1 \<or>
       (mon \<in> {''train_acc'', ''val_acc''} \<and> (thr < 0 \<or> 1 < thr)))) \<and>
   (\<not> isl (init mon md pat thr) \<longrightarrow>
      init mon md pat thr =
        Inr \<lparr>monitor = mon, min_delta = md, patience = pat, threshold = thr,
             index_best = - 1, history = []\<rparr>)"
proof -
  have "isl (init mon md pat thr) \<longleftrightarrow>
      \<not> (mon \<in> set valid_monitors \<and> 0 \<le> md \<and> 1 \<le> pat \<and>
     (mon \<in> {''train_acc'', ''val_acc''} \<longrightarrow> 0 \<le> thr \<and> thr \<le> 1))"
    unfolding init_isl validate_iff ..
  then have "isl (init mon md pat thr) \<longleftrightarrow>
      (mon \<notin> set valid_monitors \<or> md < 0 \<or> pat < 1 \<or>
       (mon \<in> {''train_acc'', ''val_acc''} \<and> (thr < 0 \<or> 1 < thr)))"
    by (simp only: de_Morgan_conj not_imp not_le) 
  then show ?thesis using init_ok by blast
qed


theorem init_validation_witness:
  "isl (init ''val_acc'' 0 1 2) \<and> \<not> isl (init ''val_loss'' 0 1 2) \<and>
   init ''val_loss'' 0 1 2 =
     Inr \<lparr>monitor = ''val_loss'', min_delta = 0, patience = 1, threshold = 2,
          index_best = - 1, history = []\<rparr>"
proof -
  have a: "isl (init ''val_acc'' 0 1 2)"
    using init_validation [of "''val_acc''" 0 1 2] by (simp add: valid_monitors_def)
  have b: "\<not> isl (init ''val_loss'' 0 1 2)"
    using init_validation [of "''val_loss''" 0 1 2] by (simp add: valid_monitors_def)
  show ?thesis using a b init_validation [of "''val_loss''" 0 1 2] by blast
qed

section \<open>The history\<close>

lemma cfi_history: "history (fst (check_for_improvement s m sg)) = history s"
  by (simp add: check_for_improvement_def Let_def split: sum.splits option.splits)

lemma cfi_config:
  "monitor (fst (check_for_improvement s m sg)) = monitor s"
  "min_delta (fst (check_for_improvement s m sg)) = min_delta s"
  "patience (fst (check_for_improvement s m sg)) = patience s"
  "threshold (fst (check_for_improvement s m sg)) = threshold s"
  by (simp_all add: check_for_improvement_def Let_def split: sum.splits option.splits)

lemma check_es_history:
  "0 < ep \<Longrightarrow> history (fst (check_early_stop_es s ep m)) = add_to_history s ep m"
  by (simp add: check_early_stop_es_def Let_def cfi_history)

lemma check_es_config:
  "monitor (fst (check_early_stop_es s ep m)) = monitor s"
  "min_delta (fst (check_early_stop_es s ep m)) = min_delta s"
  "patience (fst (check_early_stop_es s ep m)) = patience s"
  "threshold (fst (check_early_stop_es s ep m)) = threshold s"
  by (simp_all add: check_early_stop_es_def Let_def cfi_config)

lemma check_es_value_epoch: "check_early_stop_es s ep m = (s', Inr b) \<Longrightarrow> 0 < ep"
  by (rule ccontr) (simp add: check_early_stop_es_def)

text \<open>
  C8: a check call that returns appends one entry to the history; the entry carries the
  epoch of the call, and its duplicate count is the number of entries already in the
  history with that epoch. Two consecutive calls with the same epoch give duplicate counts
  that differ by one: 0 and 1 when the epoch was not in the history before.
\<close>

theorem duplicate_count:
  "(check_early_stop_es s ep m = (s', Inr b) \<longrightarrow>
      history s' = history s @ [last (history s')] \<and>
      epoch (last (history s')) = ep \<and>
      count (last (history s')) = length (filter (\<lambda>r. epoch r = ep) (history s))) \<and>
   (check_early_stop_es s ep m = (s', Inr b) \<and> check_early_stop_es s' ep m' = (s'', Inr b') \<longrightarrow>
      count (last (history s'')) = count (last (history s')) + 1 \<and>
      (filter (\<lambda>r. epoch r = ep) (history s) = [] \<longrightarrow>
         count (last (history s')) = 0 \<and> count (last (history s'')) = 1))"
proof -
  have hist: "history t' = add_to_history t e k"
    if "check_early_stop_es t e k = (t', Inr c)" for t t' e k c
  proof -
    have "0 < e" using that by (rule check_es_value_epoch)
    then have "history (fst (check_early_stop_es t e k)) = add_to_history t e k"
      by (rule check_es_history)
    then show ?thesis using that by simp
  qed
  have one: "history s' = history s @ [last (history s')] \<and>
      epoch (last (history s')) = ep \<and>
      count (last (history s')) = length (filter (\<lambda>r. epoch r = ep) (history s))"
    if "check_early_stop_es s ep m = (s', Inr b)"
    using hist [OF that] by (simp add: add_to_history_def)
  have two: "count (last (history s'')) = count (last (history s')) + 1"
    if a: "check_early_stop_es s ep m = (s', Inr b)"
      and b: "check_early_stop_es s' ep m' = (s'', Inr b')"
    unfolding hist [OF b] by (simp add: add_to_history_def hist [OF a])
  have three: "count (last (history s')) = 0 \<and> count (last (history s'')) = 1"
    if a: "check_early_stop_es s ep m = (s', Inr b)"
      and b: "check_early_stop_es s' ep m' = (s'', Inr b')"
      and c: "filter (\<lambda>r. epoch r = ep) (history s) = []"
    using one [OF a] two [OF a b] c by simp
  show ?thesis using one two three by blast
qed

theorem duplicate_count_witness:
  "map count (history (fst (check_early_stop_es
      (fst (check_early_stop_es
         \<lparr>monitor = ''val_loss'', min_delta = 0, patience = 1, threshold = 0,
          index_best = - 1, history = []\<rparr> 3 (\<lambda>k. None))) 3 (\<lambda>k. None)))) = [0, 1]"
proof -
  let ?s = "\<lparr>monitor = ''val_loss'', min_delta = 0, patience = 1, threshold = 0,
          index_best = - 1, history = []\<rparr>"
  let ?m = "\<lambda>k::string. None :: pyfloat option"
  let ?s1 = "?s\<lparr>history := add_to_history ?s 3 ?m\<rparr>"
  let ?s2 = "?s1\<lparr>history := add_to_history ?s1 3 ?m\<rparr>"
  have a: "check_early_stop_es ?s 3 ?m = (?s1, Inr False)"
    by (rule check_es_absent) simp_all
  have b: "check_early_stop_es ?s1 3 ?m = (?s2, Inr False)"
    by (rule check_es_absent) simp_all
  from duplicate_count [of ?s 3 ?m ?s1 False ?m ?s2 False] a b
  have "history ?s1 = history ?s @ [last (history ?s1)]"
    and "count (last (history ?s1)) = length (filter (\<lambda>r. epoch r = 3) (history ?s))"
    and "count (last (history ?s2)) = count (last (history ?s1)) + 1"
    by blast+
  moreover have "fst (check_early_stop_es (fst (check_early_stop_es ?s 3 ?m)) 3 ?m) = ?s2"
    by (simp only: a b fst_conv)
  ultimately show ?thesis
    by (simp add: add_to_history_def)
qed

section \<open>Invalid epochs\<close>

lemma list_ex_id_replicate_False: "\<not> list_ex id (acc @ replicate n False) \<longleftrightarrow> \<not> list_ex id acc"
  by (induction n) (auto simp: list_ex_iff)

lemma bad_epoch_both:
  "ep \<le> 0 \<Longrightarrow>
     check_early_stop h ep m =
       (h, if contains_early_stopping h then Inl InvalidEpoch else Inr False)"
  "ep \<le> 0 \<Longrightarrow>
     check_loop hs ep m acc =
       (hs, if \<exists>h \<in> set hs. contains_early_stopping h then Inl InvalidEpoch
            else Inr (acc @ replicate (length hs) False))"
proof (induction h ep m and hs ep m acc rule: check_early_stop_check_loop.induct)
  case (1 ep m)
  then show ?case by simp
next
  case (2 s ep m)
  then show ?case by (simp add: check_es_bad_epoch)
next
  case (3 hs ep m)
  then show ?case by (simp add: list_ex_iff)
next
  case (4 ep m results)
  then show ?case by simp
next
  case (5 h hs ep m results)
  show ?case
  proof (cases "contains_early_stopping h")
    case True
    then show ?thesis using 5 by simp
  next
    case False
    then have "check_early_stop h ep m = (h, Inr False)" using 5 by simp
    then show ?thesis using 5 False by (simp add: replicate_app_Cons_same)
  qed
qed

text \<open>
  C3, as the code has it: for an epoch \<open>\<le> 0\<close> the check of an \<open>EarlyStopping\<close> raises the
  \<open>ValueError\<close> on the epoch and leaves the handler as it was; the check of a
  \<open>NoopEarlyStopping\<close> validates nothing and returns \<open>False\<close>; the check of a
  \<open>SequentialEarlyStopping\<close> raises that error exactly when an \<open>EarlyStopping\<close> is among
  its sub handlers, at any depth, and returns \<open>False\<close> otherwise. In every case no history
  changes.
\<close>

theorem invalid_epoch:
  "ep \<le> 0 \<Longrightarrow>
     check_early_stop_es s ep m = (s, Inl InvalidEpoch) \<and>
     check_early_stop NoopEarlyStopping ep m = (NoopEarlyStopping, Inr False) \<and>
     check_early_stop h ep m =
       (h, if contains_early_stopping h then Inl InvalidEpoch else Inr False)"
  by (simp add: check_es_bad_epoch bad_epoch_both(1))

theorem invalid_epoch_witness:
  "check_early_stop
     (SequentialEarlyStopping
        [NoopEarlyStopping,
         EarlyStopping \<lparr>monitor = ''val_loss'', min_delta = 0, patience = 1, threshold = 0,
                        index_best = - 1, history = []\<rparr>]) 0 Map.empty
   = (SequentialEarlyStopping
        [NoopEarlyStopping,
         EarlyStopping \<lparr>monitor = ''val_loss'', min_delta = 0, patience = 1, threshold = 0,
                        index_best = - 1, history = []\<rparr>], Inl InvalidEpoch) \<and>
   check_early_stop (SequentialEarlyStopping [NoopEarlyStopping]) (- 1) Map.empty
   = (SequentialEarlyStopping [NoopEarlyStopping], Inr False)"
proof -
  have "(0::int) \<le> 0" and "(- 1::int) \<le> 0" by simp_all
  note a = invalid_epoch [OF this(1)] and b = invalid_epoch [OF this(2)]
  show ?thesis
    using a [of undefined Map.empty "SequentialEarlyStopping
        [NoopEarlyStopping,
         EarlyStopping \<lparr>monitor = ''val_loss'', min_delta = 0, patience = 1, threshold = 0,
                        index_best = - 1, history = []\<rparr>]"]
      b [of undefined Map.empty "SequentialEarlyStopping [NoopEarlyStopping]"]
    by simp
qed

text \<open>
  C3 as stated fails for the no-op handler: at epoch 0 it returns \<open>False\<close> and raises
  nothing (the unit test of the no-op handler asserts this).
\<close>

theorem noop_invalid_epoch_counterexample:
  "check_early_stop NoopEarlyStopping 0 Map.empty = (NoopEarlyStopping, Inr False) \<and>
   \<not> isl (snd (check_early_stop NoopEarlyStopping 0 Map.empty))"
  by simp

section \<open>SequentialEarlyStopping\<close>

lemma check_loop_all_return:
  "\<forall>h \<in> set hs. \<not> isl (snd (check_early_stop h ep m)) \<Longrightarrow>
   check_loop hs ep m acc =
     (map (\<lambda>h. fst (check_early_stop h ep m)) hs,
      Inr (acc @ map (\<lambda>h. projr (snd (check_early_stop h ep m))) hs))"
proof (induction hs arbitrary: acc)
  case Nil
  then show ?case by simp
next
  case (Cons h hs)
  obtain h' r where hr: "check_early_stop h ep m = (h', r)" by (cases "check_early_stop h ep m")
  with Cons.prems obtain b where b: "r = Inr b" by (cases r) auto
  have "check_loop hs ep m (acc @ [b]) =
     (map (\<lambda>h. fst (check_early_stop h ep m)) hs,
      Inr ((acc @ [b]) @ map (\<lambda>h. projr (snd (check_early_stop h ep m))) hs))"
    using Cons.prems by (intro Cons.IH) simp
  then show ?case by (simp add: hr b)
qed

lemma check_loop_raise:
  "\<forall>h \<in> set pre. \<not> isl (snd (check_early_stop h ep m)) \<Longrightarrow>
   snd (check_early_stop c ep m) = Inl e \<Longrightarrow>
   check_loop (pre @ c # post) ep m acc =
     (map (\<lambda>h. fst (check_early_stop h ep m)) pre @ fst (check_early_stop c ep m) # post, Inl e)"
proof (induction pre arbitrary: acc)
  case Nil
  obtain c' r where cr: "check_early_stop c ep m = (c', r)" by (cases "check_early_stop c ep m")
  with Nil show ?case by simp
next
  case (Cons h pre)
  obtain h' r where hr: "check_early_stop h ep m = (h', r)" by (cases "check_early_stop h ep m")
  with Cons.prems obtain b where b: "r = Inr b" by (cases r) auto
  have "check_loop (pre @ c # post) ep m (acc @ [b]) =
     (map (\<lambda>h. fst (check_early_stop h ep m)) pre @ fst (check_early_stop c ep m) # post, Inl e)"
    using Cons.prems by (intro Cons.IH) simp_all
  then show ?case by (simp add: hr b)
qed

text \<open>
  C6: when no sub handler raises, the check of a \<open>SequentialEarlyStopping\<close> calls every
  sub handler, in list order and whatever the earlier ones returned (each sub handler
  comes out in the state its own check leaves it in), and returns the disjunction of
  their results; with no sub handler it returns \<open>False\<close>.
\<close>

theorem sequential_or:
  "((\<forall>h \<in> set hs. \<not> isl (snd (check_early_stop h ep m))) \<longrightarrow>
      check_early_stop (SequentialEarlyStopping hs) ep m =
        (SequentialEarlyStopping (map (\<lambda>h. fst (check_early_stop h ep m)) hs),
         Inr (\<exists>h \<in> set hs. snd (check_early_stop h ep m) = Inr True))) \<and>
   check_early_stop (SequentialEarlyStopping []) ep m = (SequentialEarlyStopping [], Inr False)"
proof (intro conjI impI)
  assume ok: "\<forall>h \<in> set hs. \<not> isl (snd (check_early_stop h ep m))"
  have "projr (snd (check_early_stop h ep m)) \<longleftrightarrow> snd (check_early_stop h ep m) = Inr True"
    if "h \<in> set hs" for h
    using ok that by (cases "snd (check_early_stop h ep m)") auto
  then have "list_ex id (map (\<lambda>h. projr (snd (check_early_stop h ep m))) hs) \<longleftrightarrow>
      (\<exists>h \<in> set hs. snd (check_early_stop h ep m) = Inr True)"
    by (auto simp: list_ex_iff)
  then show "check_early_stop (SequentialEarlyStopping hs) ep m =
        (SequentialEarlyStopping (map (\<lambda>h. fst (check_early_stop h ep m)) hs),
         Inr (\<exists>h \<in> set hs. snd (check_early_stop h ep m) = Inr True))"
    using check_loop_all_return [OF ok, of "[]"] by simp
next
  show "check_early_stop (SequentialEarlyStopping []) ep m = (SequentialEarlyStopping [], Inr False)"
    by simp
qed

theorem sequential_or_witness:
  "check_early_stop
     (SequentialEarlyStopping
        [EarlyStopping \<lparr>monitor = ''val_acc'', min_delta = 0, patience = 1, threshold = 1 / 2,
                        index_best = - 1, history = []\<rparr>,
         NoopEarlyStopping,
         EarlyStopping \<lparr>monitor = ''val_loss'', min_delta = 0, patience = 1, threshold = 0,
                        index_best = - 1, history = []\<rparr>]) 1 [''val_acc'' \<mapsto> dbl 2 (- 1)]
   = (SequentialEarlyStopping
        [EarlyStopping \<lparr>monitor = ''val_acc'', min_delta = 0, patience = 1, threshold = 1 / 2,
                        index_best = - 1,
                        history = [\<lparr>epoch = 1, count = 0, train_acc = NaN, train_loss = NaN,
                                    val_acc = dbl 2 (- 1), val_loss = NaN\<rparr>]\<rparr>,
         NoopEarlyStopping,
         EarlyStopping \<lparr>monitor = ''val_loss'', min_delta = 0, patience = 1, threshold = 0,
                        index_best = - 1,
                        history = [\<lparr>epoch = 1, count = 0, train_acc = NaN, train_loss = NaN,
                                    val_acc = dbl 2 (- 1), val_loss = NaN\<rparr>]\<rparr>], Inr True)"
proof -
  let ?a = "\<lparr>monitor = ''val_acc'', min_delta = 0, patience = 1, threshold = 1 / 2,
                        index_best = - 1, history = []\<rparr>"
  let ?b = "\<lparr>monitor = ''val_loss'', min_delta = 0, patience = 1, threshold = 0,
                        index_best = - 1, history = []\<rparr>"
  let ?m = "[''val_acc'' \<mapsto> dbl 2 (- 1)]"
  have thr: "float_of_real (1 / 2) = dbl 1 (- 1)"
    using float_of_real_dbl [of 1 1] by simp
  have a: "check_early_stop (EarlyStopping ?a) 1 ?m
      = (EarlyStopping (?a\<lparr>history := add_to_history ?a 1 ?m\<rparr>), Inr True)"
    by (simp add: check_early_stop_es_def Let_def thr fsub_dbl)
  have b: "check_early_stop (EarlyStopping ?b) 1 ?m
      = (EarlyStopping (?b\<lparr>history := add_to_history ?b 1 ?m\<rparr>), Inr False)"
    by (simp add: check_early_stop_es_def Let_def)
  have "\<forall>h \<in> set [EarlyStopping ?a, NoopEarlyStopping, EarlyStopping ?b].
       \<not> isl (snd (check_early_stop h 1 ?m))"
    by (simp add: a b del: check_early_stop.simps(2))
  with sequential_or [of "[EarlyStopping ?a, NoopEarlyStopping, EarlyStopping ?b]" 1 ?m]
  have "check_early_stop (SequentialEarlyStopping [EarlyStopping ?a, NoopEarlyStopping, EarlyStopping ?b]) 1 ?m =
        (SequentialEarlyStopping (map (\<lambda>h. fst (check_early_stop h 1 ?m))
            [EarlyStopping ?a, NoopEarlyStopping, EarlyStopping ?b]),
         Inr (\<exists>h \<in> set [EarlyStopping ?a, NoopEarlyStopping, EarlyStopping ?b].
                snd (check_early_stop h 1 ?m) = Inr True))"
    by blast
  then show ?thesis
    by (simp add: a b add_to_history_def del: check_early_stop.simps(2,3))
qed

text \<open>
  C10: when the check of a sub handler raises, the check of the
  \<open>SequentialEarlyStopping\<close> raises the same error; the sub handlers before it have
  processed the call and keep the state their check left, the raising one keeps whatever
  it changed before raising, and the sub handlers after it are not called.
\<close>

theorem sequential_raise:
  "(\<forall>h \<in> set pre. \<not> isl (snd (check_early_stop h ep m))) \<Longrightarrow>
   snd (check_early_stop c ep m) = Inl e \<Longrightarrow>
   check_early_stop (SequentialEarlyStopping (pre @ c # post)) ep m =
     (SequentialEarlyStopping
        (map (\<lambda>h. fst (check_early_stop h ep m)) pre @ fst (check_early_stop c ep m) # post),
      Inl e)"
  using check_loop_raise [of pre ep m c e post "[]"] by simp

theorem sequential_raise_witness:
  "check_early_stop
     (SequentialEarlyStopping
        [EarlyStopping \<lparr>monitor = ''val_loss'', min_delta = 0, patience = 1, threshold = 0,
                        index_best = - 1, history = []\<rparr>,
         EarlyStopping \<lparr>monitor = ''val_loss'', min_delta = 0, patience = 1, threshold = 0,
                        index_best = 5,
                        history = [\<lparr>epoch = 1, count = 0, train_acc = NaN, train_loss = NaN,
                                    val_acc = NaN, val_loss = dbl 2 0\<rparr>]\<rparr>,
         EarlyStopping \<lparr>monitor = ''val_acc'', min_delta = 0, patience = 1, threshold = 0,
                        index_best = - 1, history = []\<rparr>]) 2 [''val_loss'' \<mapsto> dbl 1 0]
   = (SequentialEarlyStopping
        [EarlyStopping \<lparr>monitor = ''val_loss'', min_delta = 0, patience = 1, threshold = 0,
                        index_best = 0,
                        history = [\<lparr>epoch = 2, count = 0, train_acc = NaN, train_loss = NaN,
                                    val_acc = NaN, val_loss = dbl 1 0\<rparr>]\<rparr>,
         EarlyStopping \<lparr>monitor = ''val_loss'', min_delta = 0, patience = 1, threshold = 0,
                        index_best = 5,
                        history = [\<lparr>epoch = 1, count = 0, train_acc = NaN, train_loss = NaN,
                                    val_acc = NaN, val_loss = dbl 2 0\<rparr>,
                                   \<lparr>epoch = 2, count = 0, train_acc = NaN, train_loss = NaN,
                                    val_acc = NaN, val_loss = dbl 1 0\<rparr>]\<rparr>,
         EarlyStopping \<lparr>monitor = ''val_acc'', min_delta = 0, patience = 1, threshold = 0,
                        index_best = - 1, history = []\<rparr>], Inl IndexError)"
proof -
  let ?a = "\<lparr>monitor = ''val_loss'', min_delta = 0, patience = 1, threshold = 0,
                        index_best = - 1, history = []\<rparr>"
  let ?b = "\<lparr>monitor = ''val_loss'', min_delta = 0, patience = 1, threshold = 0,
                        index_best = 5,
                        history = [\<lparr>epoch = 1, count = 0, train_acc = NaN, train_loss = NaN,
                                    val_acc = NaN, val_loss = dbl 2 0\<rparr>]\<rparr>"
  let ?c = "\<lparr>monitor = ''val_acc'', min_delta = 0, patience = 1, threshold = 0,
                        index_best = - 1, history = []\<rparr>"
  let ?m = "[''val_loss'' \<mapsto> dbl 1 0]"
  have a: "check_early_stop (EarlyStopping ?a) 2 ?m
      = (EarlyStopping (?a\<lparr>history := add_to_history ?a 2 ?m, index_best := 0\<rparr>), Inr False)"
    by (simp add: check_early_stop_es_def Let_def)
  have b: "check_early_stop (EarlyStopping ?b) 2 ?m
      = (EarlyStopping (?b\<lparr>history := add_to_history ?b 2 ?m\<rparr>), Inl IndexError)"
    by (simp add: check_early_stop_es_def check_for_improvement_def Let_def add_to_history_def
        field_def py_index_def)
  have pre: "\<forall>h \<in> set [EarlyStopping ?a]. \<not> isl (snd (check_early_stop h 2 ?m))"
    by (simp add: a del: check_early_stop.simps(2))
  have c: "snd (check_early_stop (EarlyStopping ?b) 2 ?m) = Inl IndexError"
    by (simp add: b del: check_early_stop.simps(2))
  from sequential_raise [OF pre c, of "[EarlyStopping ?c]"]
  show ?thesis
    by (simp add: a b add_to_history_def del: check_early_stop.simps(2,3))
qed

section \<open>One check call, case by case\<close>

lemma improvement_history [simp]:
  "improvement (s\<lparr>history := h\<rparr>) = improvement s"
  "improvement (s\<lparr>index_best := i\<rparr>) = improvement s"
  by (simp_all add: improvement_def fun_eq_iff)

lemma crosses_threshold_update [simp]:
  "crosses_threshold (s\<lparr>history := h\<rparr>) = crosses_threshold s"
  "crosses_threshold (s\<lparr>index_best := i\<rparr>) = crosses_threshold s"
  by (simp_all add: crosses_threshold_def fun_eq_iff)

lemma check_es_step:
  assumes "monitor s \<in> set valid_monitors" and "0 < ep"
    and "- 1 \<le> index_best s" and "index_best s < int (length (history s))"
  shows "check_early_stop_es s ep m =
    (case m (monitor s) of
       None \<Rightarrow> (s\<lparr>history := add_to_history s ep m\<rparr>, Inr False)
     | Some v \<Rightarrow>
         if crosses_threshold s v then (s\<lparr>history := add_to_history s ep m\<rparr>, Inr True)
         else if history s = []
           then (s\<lparr>history := add_to_history s ep m, index_best := 0\<rparr>, Inr False)
         else if index_best s < 0
           then (s\<lparr>history := add_to_history s ep m\<rparr>,
                 Inr (patience s < int (present_since (s\<lparr>history := add_to_history s ep m\<rparr>))))
         else if improvement s v (monitored (monitor s) (history s ! nat (index_best s)))
           then (s\<lparr>history := add_to_history s ep m,
                   index_best := int (length (history s))\<rparr>, Inr False)
         else (s\<lparr>history := add_to_history s ep m\<rparr>,
               Inr (patience s < int (present_since (s\<lparr>history := add_to_history s ep m\<rparr>)))))"
proof (cases "m (monitor s)")
  case None
  then show ?thesis using assms(2) by (simp add: check_es_absent)
next
  case (Some v)
  let ?s1 = "s\<lparr>history := add_to_history s ep m\<rparr>"
  let ?n = "int (length (history ?s1))"
  let ?j = "if index_best ?s1 < 0 then ?n + index_best ?s1 else index_best ?s1"
  show ?thesis
  proof (cases "crosses_threshold s v")
    case True
    then show ?thesis using Some assms(2) by (simp add: check_es_threshold)
  next
    case nc: False
    show ?thesis
    proof (cases "history s = []")
      case True
      then show ?thesis using Some nc assms(2) by (simp add: check_es_first)
    next
      case ne: False
      have step: "check_early_stop_es s ep m =
          check_for_improvement ?s1 m (direction_sign (monitor ?s1))"
        using check_es_later [of ep m s v] assms(2) Some nc ne by simp
      have cfi: "check_for_improvement ?s1 m (direction_sign (monitor ?s1)) =
        (if improvement ?s1 v (monitored (monitor ?s1) (history ?s1 ! nat ?j))
         then (?s1\<lparr>index_best := int (length (history ?s1)) - 1\<rparr>, Inr False)
         else (?s1, Inr (int (present_since ?s1) > patience ?s1)))"
        by (rule cfi_general) (use assms Some in simp_all)
      show ?thesis
      proof (cases "index_best s < 0")
        case True
        then have "index_best s = - 1" using assms(3) by simp
        then have "history ?s1 ! nat ?j = last (add_to_history s ep m)"
          by (simp add: add_to_history_def)
        then have "monitored (monitor ?s1) (history ?s1 ! nat ?j) = v"
          using assms(1) Some by (simp add: monitored_last_add)
        then show ?thesis
          unfolding step cfi using Some nc ne True by (simp add: improvement_irrefl)
      next
        case False
        then have "nat (index_best s) < length (history s)" using assms(4) by linarith
        then have "add_to_history s ep m ! nat (index_best s) = history s ! nat (index_best s)"
          by (rule add_to_history_nth_old)
        then have "history ?s1 ! nat ?j = history s ! nat (index_best s)"
          using False by simp
        then show ?thesis
          unfolding step cfi using Some nc ne False by simp
      qed
    qed
  qed
qed

section \<open>The invariant of the index of the best entry\<close>

lemma es_inv_append:
  assumes inv: "es_inv s"
    and new: "\<And>v. m (monitor s) = Some v \<Longrightarrow> \<not> crosses_threshold s v \<Longrightarrow> 0 \<le> index_best s \<Longrightarrow>
        \<not> improvement s v (monitored (monitor s) (history s ! nat (index_best s)))"
  shows "es_inv (s\<lparr>history := add_to_history s ep m\<rparr>)"
proof -
  have mon: "monitor s \<in> set valid_monitors" using inv by (simp add: es_inv_def)
  have rng: "- 1 \<le> index_best s" "index_best s < int (length (history s))"
    using inv by (simp_all add: es_inv_def)
  have best: "\<not> improvement s (monitored (monitor s) r)
                 (monitored (monitor s) (add_to_history s ep m ! nat (index_best s)))"
    if nn: "0 \<le> index_best s" and r: "r \<in> set (add_to_history s ep m)"
      and nc: "\<not> crosses_threshold s (monitored (monitor s) r)" for r
  proof -
    have "nat (index_best s) < length (history s)" using rng nn by linarith
    then have nth: "add_to_history s ep m ! nat (index_best s) = history s ! nat (index_best s)"
      by (rule add_to_history_nth_old)
    from monitored_in_add_to_history [OF mon r]
    consider "r \<in> set (history s)" | "monitored (monitor s) r = stored (m (monitor s))" by blast
    then show ?thesis
    proof cases
      case 1
      then show ?thesis using inv nn nc unfolding es_inv_def nth by blast
    next
      case 2
      show ?thesis
      proof (cases "m (monitor s)")
        case None
        then show ?thesis using 2 by simp
      next
        case (Some v)
        then show ?thesis using 2 new [OF Some] nc nn unfolding nth by simp
      qed
    qed
  qed
  have num: "\<not> isnan (monitored (monitor s) (add_to_history s ep m ! nat (index_best s)))"
    if "0 < index_best s"
  proof -
    have "nat (index_best s) < length (history s)" using rng that by linarith
    then have "add_to_history s ep m ! nat (index_best s) = history s ! nat (index_best s)"
      by (rule add_to_history_nth_old)
    then show ?thesis using inv that unfolding es_inv_def by simp
  qed
  show ?thesis
    unfolding es_inv_def using mon rng best num by simp
qed

lemma es_inv_new_best:
  assumes inv: "es_inv s" and v: "m (monitor s) = Some v" and nc: "\<not> crosses_threshold s v"
    and better: "0 \<le> index_best s \<Longrightarrow>
        improvement s v (monitored (monitor s) (history s ! nat (index_best s)))"
    and first: "index_best s < 0 \<Longrightarrow> history s = []"
  shows "es_inv (s\<lparr>history := add_to_history s ep m, index_best := int (length (history s))\<rparr>)"
proof -
  have mon: "monitor s \<in> set valid_monitors" using inv by (simp add: es_inv_def)
  have nth: "monitored (monitor s) (add_to_history s ep m ! length (history s)) = v"
    using mon v by (simp add: nth_add_to_history_last monitored_last_add)
  have all: "\<not> improvement s (monitored (monitor s) r) v"
    if r: "r \<in> set (add_to_history s ep m)"
      and wc: "\<not> crosses_threshold s (monitored (monitor s) r)" for r
  proof -
    from monitored_in_add_to_history [OF mon r]
    consider "r \<in> set (history s)" | "monitored (monitor s) r = stored (m (monitor s))" by blast
    then show ?thesis
    proof cases
      case 1
      then have "history s \<noteq> []" by auto
      then have nn: "0 \<le> index_best s" using first by fastforce
      have "improvement s v (monitored (monitor s) (history s ! nat (index_best s)))"
        using better nn by blast
      moreover have "\<not> improvement s (monitored (monitor s) r)
          (monitored (monitor s) (history s ! nat (index_best s)))"
        using inv nn 1 wc unfolding es_inv_def by blast
      ultimately show ?thesis by (rule improvement_chain)
    next
      case 2
      then show ?thesis using v by (simp add: improvement_irrefl)
    qed
  qed
  have num: "\<not> isnan v" if "0 < length (history s)"
  proof -
    from that have "history s \<noteq> []" by simp
    then have "0 \<le> index_best s" using first by fastforce
    then have "improvement s v (monitored (monitor s) (history s ! nat (index_best s)))"
      by (rule better)
    then show ?thesis by (auto simp: isnan_def)
  qed
  show ?thesis
    unfolding es_inv_def using mon nth all num by simp
qed

lemma es_inv_step: "es_inv s \<Longrightarrow> es_inv (fst (check_early_stop_es s ep m))"
proof (cases "0 < ep")
  case False
  assume "es_inv s"
  then show ?thesis using False by (simp add: check_es_bad_epoch)
next
  case True
  assume inv: "es_inv s"
  then have wf: "monitor s \<in> set valid_monitors" "- 1 \<le> index_best s"
    "index_best s < int (length (history s))"
    by (simp_all add: es_inv_def)
  note step = check_es_step [OF wf(1) True wf(2,3), of m]
  let ?s1 = "s\<lparr>history := add_to_history s ep m\<rparr>"
  let ?s2 = "s\<lparr>history := add_to_history s ep m, index_best := int (length (history s))\<rparr>"
  show ?thesis
  proof (cases "m (monitor s)")
    case None
    have "es_inv ?s1" by (rule es_inv_append [where s = s and m = m, OF inv]) (use None in auto)
    then show ?thesis unfolding step using None by simp
  next
    case (Some v)
    show ?thesis
    proof (cases "crosses_threshold s v")
      case True
      have "es_inv ?s1" by (rule es_inv_append [where s = s and m = m, OF inv]) (use Some True in auto)
      then show ?thesis unfolding step using Some True by simp
    next
      case nc: False
      show ?thesis
      proof (cases "history s = []")
        case True
        then have neg: "index_best s < 0" using wf(3) by simp
        have "es_inv ?s2"
          by (rule es_inv_new_best [where s = s and m = m and v = v, OF inv Some nc]) (use neg True in auto)
        then show ?thesis unfolding step using Some nc True by simp
      next
        case ne: False
        show ?thesis
        proof (cases "index_best s < 0")
          case True
          have "es_inv ?s1" by (rule es_inv_append [where s = s and m = m, OF inv]) (use True in auto)
          then show ?thesis unfolding step using Some nc ne True by simp
        next
          case nn: False
          show ?thesis
          proof (cases "improvement s v (monitored (monitor s) (history s ! nat (index_best s)))")
            case True
            have "es_inv ?s2"
              by (rule es_inv_new_best [where s = s and m = m and v = v, OF inv Some nc])
                (use nn True in auto)
            then show ?thesis unfolding step using Some nc ne nn True by simp
          next
            case False
            have "es_inv ?s1"
              by (rule es_inv_append [where s = s and m = m, OF inv]) (use Some False in auto)
            then show ?thesis unfolding step using Some nc ne nn False by simp
          qed
        qed
      qed
    qed
  qed
qed

lemma es_inv_init: "init mon md pat thr = Inr s \<Longrightarrow> es_inv s"
  by (auto simp: init_def es_inv_def validate_iff split: sum.splits)

lemma init_fields:
  "init mon md pat thr = Inr s \<Longrightarrow> monitor s = mon \<and> min_delta s = md \<and> 0 \<le> md \<and>
     patience s = pat \<and> threshold s = thr \<and> index_best s = - 1 \<and> history s = []"
  by (auto simp: init_def validate_iff split: sum.splits)

lemma run_checks_Cons_fst:
  "fst (run_checks s ((ep, m) # calls)) = fst (run_checks (fst (check_early_stop_es s ep m)) calls)"
  by (simp add: case_prod_beta)

lemma es_inv_run: "es_inv s \<Longrightarrow> es_inv (fst (run_checks s calls))"
proof (induction calls arbitrary: s)
  case Nil
  then show ?case by simp
next
  case (Cons c calls)
  obtain ep m where c: "c = (ep, m)" by (cases c)
  have "es_inv (fst (check_early_stop_es s ep m))" using Cons.prems by (rule es_inv_step)
  then have "es_inv (fst (run_checks (fst (check_early_stop_es s ep m)) calls))" by (rule Cons.IH)
  then show ?case by (simp only: c run_checks_Cons_fst)
qed

lemma run_checks_config:
  "monitor (fst (run_checks s calls)) = monitor s \<and>
   min_delta (fst (run_checks s calls)) = min_delta s \<and>
   patience (fst (run_checks s calls)) = patience s \<and>
   threshold (fst (run_checks s calls)) = threshold s"
proof (induction calls arbitrary: s)
  case Nil
  then show ?case by simp
next
  case (Cons c calls)
  obtain ep m where c: "c = (ep, m)" by (cases c)
  show ?case
    using Cons.IH [of "fst (check_early_stop_es s ep m)"] check_es_config [of s ep m]
    by (simp only: c run_checks_Cons_fst)
qed

lemma index_best_step:
  assumes "es_inv s"
  shows "index_best (fst (check_early_stop_es s ep m)) = index_best s \<or>
         (index_best s < index_best (fst (check_early_stop_es s ep m)) \<and>
          index_best (fst (check_early_stop_es s ep m)) = int (length (history s)))"
proof (cases "0 < ep")
  case False
  then show ?thesis by (simp add: check_es_bad_epoch)
next
  case True
  have wf: "monitor s \<in> set valid_monitors" "- 1 \<le> index_best s"
    "index_best s < int (length (history s))"
    using assms by (simp_all add: es_inv_def)
  show ?thesis
    unfolding check_es_step [OF wf(1) True wf(2,3), of m]
    using wf(2,3) by (auto split: option.splits)
qed

lemma index_best_run:
  "es_inv s \<Longrightarrow> index_best s \<le> index_best (fst (run_checks s calls))"
proof (induction calls arbitrary: s)
  case Nil
  then show ?case by simp
next
  case (Cons c calls)
  obtain ep m where c: "c = (ep, m)" by (cases c)
  let ?s' = "fst (check_early_stop_es s ep m)"
  have "index_best s \<le> index_best ?s'" using index_best_step [OF Cons.prems, of ep m] by auto
  moreover have "index_best ?s' \<le> index_best (fst (run_checks ?s' calls))"
    by (rule Cons.IH) (rule es_inv_step [OF Cons.prems])
  ultimately show ?case by (simp only: c run_checks_Cons_fst)
qed

text \<open>
  C9: on a handler built by \<open>__init__\<close> and taken through any check calls, once the index
  of the best entry is not negative, a further check call leaves it as it is or moves it
  to a strictly later index, and after any further sequence of check calls it is not
  smaller than before, so never \<open>-1\<close> again.
\<close>

theorem index_best_monotone:
  assumes "init mon md pat thr = Inr s0" and "s = fst (run_checks s0 before)"
    and "0 \<le> index_best s"
  shows "(index_best (fst (check_early_stop_es s ep m)) = index_best s \<or>
          index_best s < index_best (fst (check_early_stop_es s ep m))) \<and>
         index_best s \<le> index_best (fst (run_checks s after)) \<and>
         index_best (fst (run_checks s after)) \<noteq> - 1"
proof -
  have inv: "es_inv s" unfolding assms(2) by (rule es_inv_run) (rule es_inv_init [OF assms(1)])
  have "index_best s \<le> index_best (fst (run_checks s after))" using inv by (rule index_best_run)
  then show ?thesis using index_best_step [OF inv, of ep m] assms(3) by auto
qed

theorem index_best_monotone_witness:
  "index_best \<lparr>monitor = ''val_loss'', min_delta = 0, patience = 1, threshold = 0, index_best = 0,
      history = [\<lparr>epoch = 1, count = 0, train_acc = NaN, train_loss = NaN,
                  val_acc = NaN, val_loss = dbl 2 (- 1)\<rparr>]\<rparr>
   \<le> index_best (fst (run_checks
       \<lparr>monitor = ''val_loss'', min_delta = 0, patience = 1, threshold = 0, index_best = 0,
        history = [\<lparr>epoch = 1, count = 0, train_acc = NaN, train_loss = NaN,
                    val_acc = NaN, val_loss = dbl 2 (- 1)\<rparr>]\<rparr>
       [(2, [''val_loss'' \<mapsto> dbl 1 (- 1)])]))"
proof -
  let ?i = "\<lparr>monitor = ''val_loss'', min_delta = 0, patience = 1, threshold = 0,
      index_best = - 1, history = []\<rparr>"
  let ?s = "\<lparr>monitor = ''val_loss'', min_delta = 0, patience = 1, threshold = 0, index_best = 0,
      history = [\<lparr>epoch = 1, count = 0, train_acc = NaN, train_loss = NaN,
                  val_acc = NaN, val_loss = dbl 2 (- 1)\<rparr>]\<rparr>"
  have i: "init ''val_loss'' 0 1 0 = Inr ?i"
    by (simp add: init_def validate_arguments_def)
  have r: "?s = fst (run_checks ?i [(1, [''val_loss'' \<mapsto> dbl 2 (- 1)])])"
    by (simp add: check_early_stop_es_def Let_def add_to_history_def)
  have n: "0 \<le> index_best ?s" by simp
  from index_best_monotone [OF i r n, of 1 Map.empty "[(2, [''val_loss'' \<mapsto> dbl 1 (- 1)])]"]
  show ?thesis by blast
qed

section \<open>The threshold rule\<close>

lemma np_sign_fsub_same: "np_sign (fsub (float_of_real x) (float_of_real x)) = Some 0"
  by (simp add: float_of_real_def)

text \<open>
  C4: with a threshold greater than zero and the monitored metric present in the
  measurement, a check call returns \<open>True\<close> at once (the entry is appended, the index of
  the best entry is left as it was, whatever the history and the patience) when the sign
  of \<open>value - threshold\<close> is the sign of the monitor's direction. When the signs differ the
  threshold rule does not fire and the call goes on as the code does below the rule: a
  first entry becomes the best one and the call returns \<open>False\<close>, a later one is handed to
  \<open>_check_for_improvement\<close>; on a handler whose index of the best entry is in range the
  call then returns \<open>True\<close> only when there is no improvement and the patience is used up.
  A value equal to the threshold has sign 0: the rule does not fire on it.
\<close>

theorem threshold_rule:
  assumes "0 < threshold s" and "m (monitor s) = Some v" and "0 < ep"
  shows "(np_sign (fsub v (float_of_real (threshold s))) = Some (direction_sign (monitor s)) \<longrightarrow>
            check_early_stop_es s ep m = (s\<lparr>history := add_to_history s ep m\<rparr>, Inr True)) \<and>
         (np_sign (fsub v (float_of_real (threshold s))) \<noteq> Some (direction_sign (monitor s)) \<longrightarrow>
            check_early_stop_es s ep m =
              (if history s = []
               then (s\<lparr>history := add_to_history s ep m, index_best := 0\<rparr>, Inr False)
               else check_for_improvement (s\<lparr>history := add_to_history s ep m\<rparr>) m
                      (direction_sign (monitor s)))) \<and>
         (v = float_of_real (threshold s) \<longrightarrow>
            check_early_stop_es s ep m =
              (if history s = []
               then (s\<lparr>history := add_to_history s ep m, index_best := 0\<rparr>, Inr False)
               else check_for_improvement (s\<lparr>history := add_to_history s ep m\<rparr>) m
                      (direction_sign (monitor s)))) \<and>
         (np_sign (fsub v (float_of_real (threshold s))) \<noteq> Some (direction_sign (monitor s)) \<and>
          monitor s \<in> set valid_monitors \<and>
          - 1 \<le> index_best s \<and> index_best s < int (length (history s)) \<longrightarrow>
            snd (check_early_stop_es s ep m) =
              Inr (history s \<noteq> [] \<and>
                   \<not> (0 \<le> index_best s \<and>
                      improvement s v (monitored (monitor s) (history s ! nat (index_best s)))) \<and>
                   patience s < int (present_since (s\<lparr>history := add_to_history s ep m\<rparr>))))"
proof -
  let ?sg = "np_sign (fsub v (float_of_real (threshold s)))"
  let ?rest = "if history s = []
               then (s\<lparr>history := add_to_history s ep m, index_best := 0\<rparr>, Inr False)
               else check_for_improvement (s\<lparr>history := add_to_history s ep m\<rparr>) m
                      (direction_sign (monitor s))"
  have fire: "check_early_stop_es s ep m = (s\<lparr>history := add_to_history s ep m\<rparr>, Inr True)"
    if "?sg = Some (direction_sign (monitor s))"
  proof -
    have "crosses_threshold s v" using that assms(1) by (simp add: crosses_threshold_def)
    then show ?thesis using assms by (simp add: check_es_threshold)
  qed
  have rest: "check_early_stop_es s ep m = ?rest" if "?sg \<noteq> Some (direction_sign (monitor s))"
  proof -
    have nc: "\<not> crosses_threshold s v" using that by (simp add: crosses_threshold_def)
    show ?thesis
    proof (cases "history s = []")
      case True
      then show ?thesis using check_es_first [of ep m s v] assms(3,2) nc by simp
    next
      case False
      then show ?thesis using check_es_later [of ep m s v] assms(3,2) nc by simp
    qed
  qed
  have tie: "?sg \<noteq> Some (direction_sign (monitor s))" if "v = float_of_real (threshold s)"
    using that direction_sign_cases [of "monitor s"] by (auto simp: np_sign_fsub_same)
  have res: "snd (check_early_stop_es s ep m) =
              Inr (history s \<noteq> [] \<and>
                   \<not> (0 \<le> index_best s \<and>
                      improvement s v (monitored (monitor s) (history s ! nat (index_best s)))) \<and>
                   patience s < int (present_since (s\<lparr>history := add_to_history s ep m\<rparr>)))"
    if ns: "?sg \<noteq> Some (direction_sign (monitor s))" and mon: "monitor s \<in> set valid_monitors"
      and lo: "- 1 \<le> index_best s" and hi: "index_best s < int (length (history s))"
  proof -
    have nc: "\<not> crosses_threshold s v" using ns by (simp add: crosses_threshold_def)
    show ?thesis
      unfolding check_es_step [OF mon assms(3) lo hi, of m]
      using assms(2) nc by auto
  qed
  show ?thesis using fire rest tie res by blast
qed

theorem threshold_rule_witness:
  "check_early_stop_es
     \<lparr>monitor = ''val_acc'', min_delta = 0, patience = 1, threshold = 1 / 2,
      index_best = - 1, history = []\<rparr> 1 [''val_acc'' \<mapsto> dbl 2 (- 1)]
   = (\<lparr>monitor = ''val_acc'', min_delta = 0, patience = 1, threshold = 1 / 2, index_best = - 1,
       history = [\<lparr>epoch = 1, count = 0, train_acc = NaN, train_loss = NaN,
                   val_acc = dbl 2 (- 1), val_loss = NaN\<rparr>]\<rparr>, Inr True) \<and>
   check_early_stop_es
     \<lparr>monitor = ''val_acc'', min_delta = 0, patience = 1, threshold = 1 / 2,
      index_best = - 1, history = []\<rparr> 1 [''val_acc'' \<mapsto> dbl 1 (- 1)]
   = (\<lparr>monitor = ''val_acc'', min_delta = 0, patience = 1, threshold = 1 / 2, index_best = 0,
       history = [\<lparr>epoch = 1, count = 0, train_acc = NaN, train_loss = NaN,
                   val_acc = dbl 1 (- 1), val_loss = NaN\<rparr>]\<rparr>, Inr False)"
proof -
  let ?s = "\<lparr>monitor = ''val_acc'', min_delta = 0, patience = 1, threshold = 1 / 2,
      index_best = - 1, history = []\<rparr>"
  have thr: "float_of_real (1 / 2) = dbl 1 (- 1)"
    using float_of_real_dbl [of 1 1] by simp
  have pos: "0 < threshold ?s" by simp
  note t1 = threshold_rule [OF pos, of "[''val_acc'' \<mapsto> dbl 2 (- 1)]" "dbl 2 (- 1)" 1]
    and t2 = threshold_rule [OF pos, of "[''val_acc'' \<mapsto> dbl 1 (- 1)]" "dbl 1 (- 1)" 1]
  have "np_sign (fsub (dbl 2 (- 1)) (float_of_real (threshold ?s))) = Some (direction_sign (monitor ?s))"
    by (simp add: thr fsub_dbl direction_sign_def)
  with t1 have a: "check_early_stop_es ?s 1 [''val_acc'' \<mapsto> dbl 2 (- 1)]
      = (?s\<lparr>history := add_to_history ?s 1 [''val_acc'' \<mapsto> dbl 2 (- 1)]\<rparr>, Inr True)"
    by simp
  have "dbl 1 (- 1) = float_of_real (threshold ?s)" by (simp add: thr)
  with t2 have b: "check_early_stop_es ?s 1 [''val_acc'' \<mapsto> dbl 1 (- 1)]
      = (?s\<lparr>history := add_to_history ?s 1 [''val_acc'' \<mapsto> dbl 1 (- 1)], index_best := 0\<rparr>, Inr False)"
    by simp
  show ?thesis unfolding a b by (simp add: add_to_history_def)
qed

section \<open>The patience rule\<close>

lemmas run_eval =
  init_def validate_arguments_def default_min_delta_def default_threshold_def
  check_early_stop_es_def check_for_improvement_def Let_def add_to_history_def field_def
  py_index_def py_slice_from_def fsub_dbl abs_ge_dbl

text \<open>
  C5: a check call with the monitored value present, on a history that is not empty, that
  does not fire the threshold rule and brings no improvement on the value at the index of
  the best entry (the delta being the difference of doubles the code computes), returns
  \<open>True\<close> exactly when the number of entries after the index of the best entry, up to and
  including the new one, whose monitored value is present (not \<open>nan\<close>, what
  \<open>rows_not_nan.sum()\<close> counts), is greater than the patience. With monitor \<open>val_loss\<close>,
  patience 2 and the default \<open>min_delta\<close> and threshold, the values 0.065, 0.068, 0.067,
  0.066 (the doubles of these literals, all of the form \<open>m * 2^(-56)\<close>) at the epochs 1 to 4
  give \<open>False\<close>, \<open>False\<close>, \<open>False\<close>, \<open>True\<close>.
\<close>

theorem patience_rule:
  "(monitor s \<in> set valid_monitors \<and> 0 \<le> min_delta s \<and> 0 < ep \<and>
    - 1 \<le> index_best s \<and> index_best s < int (length (history s)) \<and>
    history s \<noteq> [] \<and> m (monitor s) = Some v \<and> \<not> crosses_threshold s v \<and>
    (0 \<le> index_best s \<longrightarrow>
       \<not> improves_on s v (monitored (monitor s) (history s ! nat (index_best s)))) \<longrightarrow>
    check_early_stop_es s ep m =
      (s\<lparr>history := add_to_history s ep m\<rparr>,
       Inr (patience s < int (present_since (s\<lparr>history := add_to_history s ep m\<rparr>))))) \<and>
   map_sum id (\<lambda>s. snd (run_checks s
       [(1, [''val_loss'' \<mapsto> dbl 4683743612465316 (- 56)]),
        (2, [''val_loss'' \<mapsto> dbl 4899916394579100 (- 56)]),
        (3, [''val_loss'' \<mapsto> dbl 4827858800541172 (- 56)]),
        (4, [''val_loss'' \<mapsto> dbl 4755801206503244 (- 56)])]))
     (init ''val_loss'' default_min_delta 2 default_threshold)
   = Inr [Inr False, Inr False, Inr False, Inr True]"
proof (intro conjI impI)
  assume a: "monitor s \<in> set valid_monitors \<and> 0 \<le> min_delta s \<and> 0 < ep \<and>
    - 1 \<le> index_best s \<and> index_best s < int (length (history s)) \<and>
    history s \<noteq> [] \<and> m (monitor s) = Some v \<and> \<not> crosses_threshold s v \<and>
    (0 \<le> index_best s \<longrightarrow>
       \<not> improves_on s v (monitored (monitor s) (history s ! nat (index_best s))))"
  then have mon: "monitor s \<in> set valid_monitors" and ep: "0 < ep"
    and lo: "- 1 \<le> index_best s" and hi: "index_best s < int (length (history s))"
    by simp_all
  have imp: "improvement s v b = improves_on s v b" for b
    using a by (simp add: improvement_improves_on)
  show "check_early_stop_es s ep m =
      (s\<lparr>history := add_to_history s ep m\<rparr>,
       Inr (patience s < int (present_since (s\<lparr>history := add_to_history s ep m\<rparr>))))"
    unfolding check_es_step [OF mon ep lo hi, of m] using a by (auto simp: imp)
next
  show "map_sum id (\<lambda>s. snd (run_checks s
       [(1, [''val_loss'' \<mapsto> dbl 4683743612465316 (- 56)]),
        (2, [''val_loss'' \<mapsto> dbl 4899916394579100 (- 56)]),
        (3, [''val_loss'' \<mapsto> dbl 4827858800541172 (- 56)]),
        (4, [''val_loss'' \<mapsto> dbl 4755801206503244 (- 56)])]))
     (init ''val_loss'' default_min_delta 2 default_threshold)
   = Inr [Inr False, Inr False, Inr False, Inr True]"
    by (simp add: run_eval)
qed

theorem patience_rule_witness:
  "check_early_stop_es
     \<lparr>monitor = ''val_loss'', min_delta = 0, patience = 1, threshold = 0, index_best = 0,
      history = [\<lparr>epoch = 1, count = 0, train_acc = NaN, train_loss = NaN,
                  val_acc = NaN, val_loss = dbl 1 0\<rparr>,
                 \<lparr>epoch = 2, count = 0, train_acc = NaN, train_loss = NaN,
                  val_acc = NaN, val_loss = dbl 2 0\<rparr>]\<rparr> 3 [''val_loss'' \<mapsto> dbl 3 0]
   = (\<lparr>monitor = ''val_loss'', min_delta = 0, patience = 1, threshold = 0, index_best = 0,
       history = [\<lparr>epoch = 1, count = 0, train_acc = NaN, train_loss = NaN,
                   val_acc = NaN, val_loss = dbl 1 0\<rparr>,
                  \<lparr>epoch = 2, count = 0, train_acc = NaN, train_loss = NaN,
                   val_acc = NaN, val_loss = dbl 2 0\<rparr>,
                  \<lparr>epoch = 3, count = 0, train_acc = NaN, train_loss = NaN,
                   val_acc = NaN, val_loss = dbl 3 0\<rparr>]\<rparr>, Inr True)"
proof -
  let ?s = "\<lparr>monitor = ''val_loss'', min_delta = 0, patience = 1, threshold = 0, index_best = 0,
      history = [\<lparr>epoch = 1, count = 0, train_acc = NaN, train_loss = NaN,
                  val_acc = NaN, val_loss = dbl 1 0\<rparr>,
                 \<lparr>epoch = 2, count = 0, train_acc = NaN, train_loss = NaN,
                  val_acc = NaN, val_loss = dbl 2 0\<rparr>]\<rparr>"
  let ?m = "[''val_loss'' \<mapsto> dbl 3 0]"
  have hyp: "monitor ?s \<in> set valid_monitors \<and> 0 \<le> min_delta ?s \<and> 0 < (3::int) \<and>
    - 1 \<le> index_best ?s \<and> index_best ?s < int (length (history ?s)) \<and>
    history ?s \<noteq> [] \<and> ?m (monitor ?s) = Some (dbl 3 0) \<and> \<not> crosses_threshold ?s (dbl 3 0) \<and>
    (0 \<le> index_best ?s \<longrightarrow>
       \<not> improves_on ?s (dbl 3 0) (monitored (monitor ?s) (history ?s ! nat (index_best ?s))))"
    by (simp add: valid_monitors_def crosses_threshold_def improves_on_def monitored_def
        field_def direction_sign_def fsub_dbl)
  have "check_early_stop_es ?s 3 ?m =
      (?s\<lparr>history := add_to_history ?s 3 ?m\<rparr>,
       Inr (patience ?s < int (present_since (?s\<lparr>history := add_to_history ?s 3 ?m\<rparr>))))"
    using patience_rule [of ?s 3 ?m "dbl 3 0"] hyp by blast
  then show ?thesis
    by (simp add: add_to_history_def present_since_def monitored_def field_def)
qed

section \<open>Subtractions that round\<close>

lemma bitlen_unique:
  assumes "2 ^ k \<le> n" and "n < 2 ^ Suc k"
  shows "bitlen n = int (Suc k)"
proof -
  have pos: "0 < n" using assms(1) by (smt (verit) zero_less_power)
  note b = bitlen_bounds [OF pos]
  have "(2::int) ^ nat (bitlen n - 1) < 2 ^ Suc k" using b assms(2) by linarith
  then have "nat (bitlen n - 1) < Suc k" by (intro power_less_imp_less_exp [of "2::int"]) simp_all
  moreover have "(2::int) ^ k < 2 ^ nat (bitlen n)" using b assms(1) by linarith
  then have "k < nat (bitlen n)" by (intro power_less_imp_less_exp [of "2::int"]) simp_all
  ultimately show ?thesis by linarith
qed

lemma round53_explicit:
  assumes "2 ^ 52 \<le> q" and "q < 2 ^ 53" and "0 \<le> r" and "r < 2 ^ j" and "1 \<le> j"
  shows "round53 (q * 2 ^ j + r) =
    (if 2 ^ j < 2 * r \<or> (2 * r = 2 ^ j \<and> odd q) then (q + 1) * 2 ^ j else q * 2 ^ j)"
proof -
  let ?n = "q * 2 ^ j + r"
  have c: "(0::int) < 2 ^ j" by simp
  have lo: "2 ^ (52 + j) \<le> ?n"
  proof -
    have "(2::int) ^ 52 * 2 ^ j \<le> q * 2 ^ j" using assms(1) c by (simp add: mult_right_mono)
    moreover have "(2::int) ^ (52 + j) = 2 ^ 52 * 2 ^ j" by (rule power_add)
    ultimately show ?thesis using assms(3) by linarith
  qed
  have hi: "?n < 2 ^ Suc (52 + j)"
  proof -
    have "q + 1 \<le> 2 ^ 53" using assms(2) by simp
    then have "(q + 1) * 2 ^ j \<le> 2 ^ 53 * 2 ^ j" using c by (simp add: mult_right_mono)
    moreover have "?n < (q + 1) * 2 ^ j" using assms(4) by (simp add: algebra_simps)
    moreover have "(2::int) ^ 53 * 2 ^ j = 2 ^ Suc (52 + j)"
      using power_add [of "2::int" 53 j] by simp
    ultimately show ?thesis by linarith
  qed
  have bl: "bitlen ?n = int (Suc (52 + j))" using lo hi by (rule bitlen_unique)
  have jj: "nat (bitlen ?n - 53) = j" unfolding bl by simp
  have big: "\<not> ?n < 2 ^ 53"
  proof -
    have "(2::int) ^ 53 \<le> 2 ^ (52 + j)" using assms(5) by (intro power_increasing) simp_all
    then show ?thesis using lo by linarith
  qed
  have dv: "?n div 2 ^ j = q" using assms(3,4) by (simp add: div_pos_pos_trivial)
  have md: "?n mod 2 ^ j = r" using assms(3,4) by (simp add: mod_pos_pos_trivial)
  show ?thesis
    unfolding round53_def using big by (simp only: if_False Let_def jj dv md)
qed

lemma one_minus_tiny:
  "fsub (dbl 4503599627370496 (- 52)) (dbl 6490371073168535 (- 109)) = dbl 4503599627370496 (- 52)"
proof -
  let ?n = "4503599627370496 * 2 ^ 1022 - 6490371073168535 * 2 ^ 965 :: int"
  have n: "\<bar>?n\<bar> = 9007199254740991 * 2 ^ 1021 + 65567222964759401 * 2 ^ 965" by simp
  have r: "round53 (9007199254740991 * 2 ^ 1021 + 65567222964759401 * 2 ^ 965)
      = (9007199254740991 + 1) * 2 ^ 1021"
    using round53_explicit [of 9007199254740991 "65567222964759401 * 2 ^ 965" 1021] by simp
  have "fround ?n = Fin (4503599627370496 * 2 ^ 1022)"
    by (simp only: fround_def n r) simp
  then show ?thesis by (simp add: dbl_def)
qed

lemma half_minus_tiny:
  "fsub (dbl 4503599627370496 (- 53)) (dbl 6490371073168535 (- 109)) = dbl 4503599627370496 (- 53)"
proof -
  let ?n = "4503599627370496 * 2 ^ 1021 - 6490371073168535 * 2 ^ 965 :: int"
  have n: "\<bar>?n\<bar> = 9007199254740991 * 2 ^ 1020 + 29538425945795433 * 2 ^ 965" by simp
  have r: "round53 (9007199254740991 * 2 ^ 1020 + 29538425945795433 * 2 ^ 965)
      = (9007199254740991 + 1) * 2 ^ 1020"
    using round53_explicit [of 9007199254740991 "29538425945795433 * 2 ^ 965" 1020] by simp
  have "fround ?n = Fin (4503599627370496 * 2 ^ 1021)"
    by (simp only: fround_def n r) simp
  then show ?thesis by (simp add: dbl_def)
qed

text \<open>
  A run that rounding decides, with monitor \<open>val_acc\<close>, \<open>min_delta = 1.0\<close> and patience 1:
  after the values 1e-17 and 0.5, the value 1.0 gives the delta \<open>1.0 - 1e-17\<close>, which is
  less than \<open>min_delta\<close> as a real number and rounds to the double 1.0. The code sees an
  improvement, moves the index of the best entry to 2 and returns \<open>False\<close>.
\<close>

lemma rounded_delta_reaches_min_delta:
  "snd (run_checks
       \<lparr>monitor = ''val_acc'', min_delta = 1, patience = 1, threshold = 0,
        index_best = - 1, history = []\<rparr>
       [(1, [''val_acc'' \<mapsto> dbl 6490371073168535 (- 109)]),
        (2, [''val_acc'' \<mapsto> dbl 4503599627370496 (- 53)]),
        (3, [''val_acc'' \<mapsto> dbl 4503599627370496 (- 52)])])
   = [Inr False, Inr False, Inr False] \<and>
   index_best (fst (run_checks
       \<lparr>monitor = ''val_acc'', min_delta = 1, patience = 1, threshold = 0,
        index_best = - 1, history = []\<rparr>
       [(1, [''val_acc'' \<mapsto> dbl 6490371073168535 (- 109)]),
        (2, [''val_acc'' \<mapsto> dbl 4503599627370496 (- 53)]),
        (3, [''val_acc'' \<mapsto> dbl 4503599627370496 (- 52)])]))
   = 2"
  by (simp add: run_eval one_minus_tiny half_minus_tiny)

section \<open>What the index of the best entry points to\<close>

lemma fless_dbl [simp]: "fless (dbl a e) (dbl b e) \<longleftrightarrow> a < b"
  by (simp add: dbl_def)

lemma run_checks_dropWhile:
  "fst (run_checks s calls) = fst (run_checks s (dropWhile (\<lambda>c. fst c \<le> 0) calls))"
proof (induction calls)
  case Nil
  then show ?case by simp
next
  case (Cons c calls)
  obtain ep m where c: "c = (ep, m)" by (cases c)
  show ?case
  proof (cases "ep \<le> 0")
    case True
    then have "fst (check_early_stop_es s ep m) = s" by (simp add: check_es_bad_epoch)
    then show ?thesis using Cons True unfolding c run_checks_Cons_fst by simp
  next
    case False
    then show ?thesis unfolding c by simp
  qed
qed

lemma index_best_absent_run:
  "\<forall>c \<in> set calls. 0 < fst c \<longrightarrow> snd c (monitor s) = None \<Longrightarrow>
   index_best (fst (run_checks s calls)) = index_best s"
proof (induction calls arbitrary: s)
  case Nil
  then show ?case by simp
next
  case (Cons c calls)
  obtain ep m where c: "c = (ep, m)" by (cases c)
  let ?s' = "fst (check_early_stop_es s ep m)"
  have mon: "monitor ?s' = monitor s" by (rule check_es_config)
  have one: "index_best ?s' = index_best s"
  proof (cases "0 < ep")
    case True
    then have "m (monitor s) = None" using Cons.prems c by simp
    then show ?thesis using True by (simp add: check_es_absent)
  next
    case False
    then show ?thesis by (simp add: check_es_bad_epoch)
  qed
  have "index_best (fst (run_checks ?s' calls)) = index_best ?s'"
    by (rule Cons.IH) (use Cons.prems mon in simp)
  then show ?case unfolding c run_checks_Cons_fst using one by simp
qed

lemma first_present_sets_best:
  assumes inv: "es_inv s" and empty: "history s = []"
    and calls: "dropWhile (\<lambda>c. fst c \<le> 0) calls = (ep, m) # rest"
    and v: "m (monitor s) = Some v" and nc: "\<not> crosses_threshold s v"
  shows "0 \<le> index_best (fst (run_checks s calls))"
proof -
  have "(ep, m) \<in> set (dropWhile (\<lambda>c. fst c \<le> 0) calls)" unfolding calls by simp
  have ep: "0 < ep"
    using hd_dropWhile [of "\<lambda>c. fst c \<le> 0" calls] calls by fastforce
  let ?s' = "fst (check_early_stop_es s ep m)"
  have one: "index_best ?s' = 0"
    using check_es_first [of ep m s v] ep v nc empty by simp
  have "es_inv ?s'" using inv by (rule es_inv_step)
  then have "index_best ?s' \<le> index_best (fst (run_checks ?s' rest))" by (rule index_best_run)
  then have "0 \<le> index_best (fst (run_checks s ((ep, m) # rest)))"
    unfolding run_checks_Cons_fst using one by simp
  then show ?thesis using run_checks_dropWhile [of s calls] calls by simp
qed

lemma not_improves_best:
  assumes "\<not> improves_on s v b" and "min_delta s = 0"
  shows "direction_sign (monitor s) = 1 \<longrightarrow> \<not> fless b v"
    and "direction_sign (monitor s) = - 1 \<longrightarrow> \<not> fless v b"
  using assms by (auto simp: improves_on_def np_sign_fsub_fless)

text \<open>
  C2, as the code has it: on a handler built by \<open>__init__\<close> and taken through any check
  calls, the index of the best entry is \<open>-1\<close> or an index into the history. It is \<open>-1\<close> as
  long as no check call carried the monitored metric. When the first check call with a valid
  epoch carries a monitored value that does not fire the threshold rule, the index is not
  negative from then on. An index greater than 0 points to a value that is not \<open>nan\<close>.
  Whenever the index is not negative, no entry of the history whose monitored value did
  not fire the threshold rule is an improvement on the value the index points to (a
  change in the monitor's direction, of at least \<open>min_delta\<close> when that is not 0, on the
  difference of doubles the code computes; a \<open>nan\<close> is no improvement and nothing improves
  on a \<open>nan\<close>). With \<open>min_delta = 0\<close> and the threshold rule off, no entry then holds a
  value greater (accuracy) or smaller (loss) than the value the index points to.
\<close>

theorem index_best_invariant:
  assumes "init mon md pat thr = Inr s0" and "s = fst (run_checks s0 calls)"
  shows "(index_best s = - 1 \<or> (0 \<le> index_best s \<and> index_best s < int (length (history s)))) \<and>
     ((\<forall>c \<in> set calls. 0 < fst c \<longrightarrow> snd c mon = None) \<longrightarrow> index_best s = - 1) \<and>
     (\<forall>ep m rest v.
         dropWhile (\<lambda>c. fst c \<le> 0) calls = (ep, m) # rest \<and> m mon = Some v \<and>
         \<not> crosses_threshold s v \<longrightarrow> 0 \<le> index_best s) \<and>
     (0 < index_best s \<longrightarrow> \<not> isnan (monitored mon (history s ! nat (index_best s)))) \<and>
     (0 \<le> index_best s \<longrightarrow>
        (\<forall>r \<in> set (history s).
            \<not> crosses_threshold s (monitored mon r) \<longrightarrow>
            \<not> improves_on s (monitored mon r) (monitored mon (history s ! nat (index_best s)))) \<and>
        (min_delta s = 0 \<and> threshold s \<le> 0 \<longrightarrow>
           (\<forall>r \<in> set (history s).
               (direction_sign mon = 1 \<longrightarrow>
                  \<not> fless (monitored mon (history s ! nat (index_best s))) (monitored mon r)) \<and>
               (direction_sign mon = - 1 \<longrightarrow>
                  \<not> fless (monitored mon r) (monitored mon (history s ! nat (index_best s)))))))"
proof -
  note f = init_fields [OF assms(1)]
  have inv0: "es_inv s0" by (rule es_inv_init [OF assms(1)])
  have inv: "es_inv s" unfolding assms(2) using inv0 by (rule es_inv_run)
  have cfg: "monitor s = mon" "0 \<le> min_delta s" "threshold s = threshold s0"
    using run_checks_config [of s0 calls] f assms(2) by simp_all
  have imp: "improvement s v b = improves_on s v b" for v b
    using cfg(2) by (rule improvement_improves_on)
  have cr: "crosses_threshold s v = crosses_threshold s0 v" for v
    using cfg(1,3) f by (simp add: crosses_threshold_def)
  have p1: "index_best s = - 1 \<or> (0 \<le> index_best s \<and> index_best s < int (length (history s)))"
    using inv unfolding es_inv_def by linarith
  have p2: "index_best s = - 1" if "\<forall>c \<in> set calls. 0 < fst c \<longrightarrow> snd c mon = None"
    unfolding assms(2) using index_best_absent_run [of calls s0] that f by simp
  have p3: "0 \<le> index_best s"
    if "dropWhile (\<lambda>c. fst c \<le> 0) calls = (ep, m) # rest" "m mon = Some v"
      "\<not> crosses_threshold s v" for ep m rest v
    unfolding assms(2)
    by (rule first_present_sets_best [OF inv0 _ that(1), of v]) (use f that cr in simp_all)
  have p4: "\<not> isnan (monitored mon (history s ! nat (index_best s)))" if "0 < index_best s"
    using inv that unfolding es_inv_def cfg(1) by simp
  have p5: "\<not> improves_on s (monitored mon r) (monitored mon (history s ! nat (index_best s)))"
    if "0 \<le> index_best s" "r \<in> set (history s)" "\<not> crosses_threshold s (monitored mon r)" for r
    using inv that unfolding es_inv_def cfg(1) imp by blast
  have p6: "(direction_sign mon = 1 \<longrightarrow>
                  \<not> fless (monitored mon (history s ! nat (index_best s))) (monitored mon r)) \<and>
               (direction_sign mon = - 1 \<longrightarrow>
                  \<not> fless (monitored mon r) (monitored mon (history s ! nat (index_best s))))"
    if "0 \<le> index_best s" "min_delta s = 0" "threshold s \<le> 0" "r \<in> set (history s)" for r
  proof -
    have "\<not> crosses_threshold s (monitored mon r)" using that(3) by (simp add: crosses_threshold_def)
    then have "\<not> improves_on s (monitored mon r) (monitored mon (history s ! nat (index_best s)))"
      using p5 that(1,4) by blast
    then show ?thesis using not_improves_best [OF _ that(2)] cfg(1) by simp
  qed
  show ?thesis using p1 p2 p3 p4 p5 p6 by blast
qed

theorem index_best_invariant_witness:
  "0 \<le> index_best (fst (run_checks
       \<lparr>monitor = ''val_loss'', min_delta = 0, patience = 1, threshold = 0,
        index_best = - 1, history = []\<rparr>
       [(1, [''val_loss'' \<mapsto> dbl 2 (- 1)]), (2, [''val_loss'' \<mapsto> dbl 1 (- 1)])])) \<and>
   \<not> fless (dbl 2 (- 1)) (dbl 1 (- 1))"
proof -
  let ?i = "\<lparr>monitor = ''val_loss'', min_delta = 0, patience = 1, threshold = 0,
      index_best = - 1, history = []\<rparr>"
  let ?calls = "[(1::int, [''val_loss'' \<mapsto> dbl 2 (- 1)]), (2, [''val_loss'' \<mapsto> dbl 1 (- 1)])]"
  let ?t = "\<lparr>monitor = ''val_loss'', min_delta = 0, patience = 1, threshold = 0, index_best = 1,
      history = [\<lparr>epoch = 1, count = 0, train_acc = NaN, train_loss = NaN,
                  val_acc = NaN, val_loss = dbl 2 (- 1)\<rparr>,
                 \<lparr>epoch = 2, count = 0, train_acc = NaN, train_loss = NaN,
                  val_acc = NaN, val_loss = dbl 1 (- 1)\<rparr>]\<rparr>"
  have i: "init ''val_loss'' 0 1 0 = Inr ?i"
    by (simp add: init_def validate_arguments_def)
  have r: "?t = fst (run_checks ?i ?calls)"
    by (simp add: run_eval)
  note inv = index_best_invariant [OF i r]
  have first: "dropWhile (\<lambda>c. fst c \<le> 0) ?calls =
      (1, [''val_loss'' \<mapsto> dbl 2 (- 1)]) # [(2, [''val_loss'' \<mapsto> dbl 1 (- 1)])] \<and>
      [''val_loss'' \<mapsto> dbl 2 (- 1)] ''val_loss'' = Some (dbl 2 (- 1)) \<and>
      \<not> crosses_threshold ?t (dbl 2 (- 1))"
    by (simp add: crosses_threshold_def)
  have a: "0 \<le> index_best ?t" using inv first by blast
  have cfg: "min_delta ?t = 0 \<and> threshold ?t \<le> 0" by simp
  have dir: "direction_sign ''val_loss'' = - 1" by (simp add: direction_sign_def)
  have row: "history ?t ! 0 \<in> set (history ?t)" by simp
  from inv a cfg row dir
  have "\<not> fless (monitored ''val_loss'' (history ?t ! 0))
          (monitored ''val_loss'' (history ?t ! nat (index_best ?t)))"
    by blast
  then have "\<not> fless (dbl 2 (- 1)) (dbl 1 (- 1))"
    by (simp add: monitored_def field_def)
  then show ?thesis using a unfolding r [symmetric] by blast
qed

text \<open>
  C2 as stated fails, twice by design. \<open>min_delta\<close> keeps the index on an entry that a later
  value improves on by less than \<open>min_delta\<close>: with monitor \<open>val_loss\<close> and
  \<open>min_delta = 0.25\<close>, after the values 1.0 and 0.875 the index is 0 and the minimum is at
  index 1. A threshold stop returns before the index is touched: with monitor \<open>val_acc\<close>,
  \<open>min_delta = 0\<close> and threshold 0.75, after the values 0.5 and 0.875 (the second call
  returns \<open>True\<close>) the index is 0 and the maximum is at index 1.
\<close>

theorem index_best_not_best_counterexample:
  "init ''val_loss'' (1 / 4) 5 0 =
     Inr \<lparr>monitor = ''val_loss'', min_delta = 1 / 4, patience = 5, threshold = 0,
          index_best = - 1, history = []\<rparr> \<and>
   fst (run_checks
       \<lparr>monitor = ''val_loss'', min_delta = 1 / 4, patience = 5, threshold = 0,
        index_best = - 1, history = []\<rparr>
       [(1, [''val_loss'' \<mapsto> dbl 8 (- 3)]), (2, [''val_loss'' \<mapsto> dbl 7 (- 3)])])
   = \<lparr>monitor = ''val_loss'', min_delta = 1 / 4, patience = 5, threshold = 0, index_best = 0,
      history = [\<lparr>epoch = 1, count = 0, train_acc = NaN, train_loss = NaN,
                  val_acc = NaN, val_loss = dbl 8 (- 3)\<rparr>,
                 \<lparr>epoch = 2, count = 0, train_acc = NaN, train_loss = NaN,
                  val_acc = NaN, val_loss = dbl 7 (- 3)\<rparr>]\<rparr> \<and>
   fless (dbl 7 (- 3)) (dbl 8 (- 3)) \<and>
   init ''val_acc'' 0 5 (3 / 4) =
     Inr \<lparr>monitor = ''val_acc'', min_delta = 0, patience = 5, threshold = 3 / 4,
          index_best = - 1, history = []\<rparr> \<and>
   run_checks
       \<lparr>monitor = ''val_acc'', min_delta = 0, patience = 5, threshold = 3 / 4,
        index_best = - 1, history = []\<rparr>
       [(1, [''val_acc'' \<mapsto> dbl 4 (- 3)]), (2, [''val_acc'' \<mapsto> dbl 7 (- 3)])]
   = (\<lparr>monitor = ''val_acc'', min_delta = 0, patience = 5, threshold = 3 / 4, index_best = 0,
       history = [\<lparr>epoch = 1, count = 0, train_acc = NaN, train_loss = NaN,
                   val_acc = dbl 4 (- 3), val_loss = NaN\<rparr>,
                  \<lparr>epoch = 2, count = 0, train_acc = NaN, train_loss = NaN,
                   val_acc = dbl 7 (- 3), val_loss = NaN\<rparr>]\<rparr>,
      [Inr False, Inr True]) \<and>
   fless (dbl 4 (- 3)) (dbl 7 (- 3))"
proof -
  have thr: "float_of_real (3 / 4) = dbl 6 (- 3)"
    using float_of_real_dbl [of 3 6] by simp
  show ?thesis by (simp add: run_eval thr)
qed

section \<open>A first check without the monitored metric\<close>

text \<open>
  C1 fails on the code. \<open>check_early_stop\<close> takes the first entry of the history for the
  first value (\<open>len(self.history) == 1\<close>): after a first call without the monitored metric
  the index of the best entry stays \<open>-1\<close>, \<open>history[monitor][-1]\<close> reads the value just
  appended, no value is ever an improvement, and the handler stops after
  \<open>patience + 1\<close> present values. With monitor \<open>val_loss\<close> and patience 1, the values 0.5
  and 0.4 (the doubles \<open>9007199254740992 * 2^(-54)\<close> and \<open>7205759403792794 * 2^(-54)\<close>) give
  \<open>False\<close>, \<open>False\<close>; after one more call at the front, without the metric, the same two
  calls give \<open>False\<close>, \<open>True\<close>.
\<close>

theorem missing_first_value_not_neutral:
  "init ''val_loss'' default_min_delta 1 default_threshold =
     Inr \<lparr>monitor = ''val_loss'', min_delta = 6338253001141147 / 2 ^ 99, patience = 1,
          threshold = 0, index_best = - 1, history = []\<rparr> \<and>
   snd (run_checks
       \<lparr>monitor = ''val_loss'', min_delta = 6338253001141147 / 2 ^ 99, patience = 1,
        threshold = 0, index_best = - 1, history = []\<rparr>
       [(1, [''val_loss'' \<mapsto> dbl 9007199254740992 (- 54)]),
        (2, [''val_loss'' \<mapsto> dbl 7205759403792794 (- 54)])])
   = [Inr False, Inr False] \<and>
   snd (run_checks
       \<lparr>monitor = ''val_loss'', min_delta = 6338253001141147 / 2 ^ 99, patience = 1,
        threshold = 0, index_best = - 1, history = []\<rparr>
       [(1, Map.empty),
        (1, [''val_loss'' \<mapsto> dbl 9007199254740992 (- 54)]),
        (2, [''val_loss'' \<mapsto> dbl 7205759403792794 (- 54)])])
   = [Inr False, Inr False, Inr True] \<and>
   index_best (fst (run_checks
       \<lparr>monitor = ''val_loss'', min_delta = 6338253001141147 / 2 ^ 99, patience = 1,
        threshold = 0, index_best = - 1, history = []\<rparr>
       [(1, Map.empty),
        (1, [''val_loss'' \<mapsto> dbl 9007199254740992 (- 54)]),
        (2, [''val_loss'' \<mapsto> dbl 7205759403792794 (- 54)])]))
   = - 1"
  by (simp add: run_eval)

end
